theory Spec2Isabelle
  imports Main
begin

section \<open>Data model of \<open>src/index.ts\<close>\<close>

text \<open>
  A \<open>Buffer\<close> is an empty object: only its identity matters. Identities are natural
  numbers, and the expression \<open>{}\<close> of \<open>acquireBuffer\<close> takes the next unused one.
  \<open>Node\<close> objects live in a heap addressed by references; the ports of a node are owned
  by that node (no two nodes share a port object or a port array).
\<close>

type_synonym buffer = nat
type_synonym node_ref = nat

text \<open>
  Delays are whole sample counts, so a JavaScript \<open>number\<close> is an integer here; \<open>NaN\<close> is
  what arithmetic gives when it reads a latency that is still \<open>undefined\<close>.
\<close>

datatype number = Num int | NaN

record connection =
  node :: node_ref
  port :: string

record port =
  name :: string
  connection :: "connection option"
  latency :: "number option"
  compensation :: "number option"
  buffer :: "buffer option"

record node =
  name :: string
  inputs :: "port list"
  outputs :: "port list"
  latency :: "number option"
  delay :: int
  visited :: bool

record BufferAssignment =
  port :: string
  buffer :: "buffer option"
  compensation :: "number option"

record Scheduled =
  node :: node_ref
  inputs :: "BufferAssignment list"
  outputs :: "BufferAssignment list"

text \<open>
  The state that \<open>visit\<close> reads and writes: the heap of nodes, the number of \<open>Buffer\<close>
  objects created so far, and the two locals \<open>order\<close> and \<open>bufferStack\<close> of \<open>schedule\<close>.
  The top of \<open>bufferStack\<close> (the end of the JavaScript array) is the head of the list.
\<close>

record state =
  nodes :: "node_ref \<Rightarrow> node"
  allocated :: nat
  bufferStack :: "buffer option list"
  order :: "Scheduled list"

record visit_result =
  latency :: "number option"
  outputs :: "BufferAssignment list"

section \<open>Numbers\<close>

definition to_number :: "number option \<Rightarrow> number" where
  "to_number x = (case x of None \<Rightarrow> NaN | Some v \<Rightarrow> v)"

fun math_max :: "number \<Rightarrow> number \<Rightarrow> number" where
  "math_max (Num a) (Num b) = Num (max a b)"
| "math_max _ _ = NaN"

fun num_sub :: "number \<Rightarrow> number \<Rightarrow> number" where
  "num_sub (Num a) (Num b) = Num (a - b)"
| "num_sub _ _ = NaN"

fun num_add :: "number \<Rightarrow> number \<Rightarrow> number" where
  "num_add (Num a) (Num b) = Num (a + b)"
| "num_add _ _ = NaN"

text \<open>\<open>x != 0\<close>: true for \<open>NaN\<close>.\<close>

definition not_zero :: "number \<Rightarrow> bool" where
  "not_zero x = (x \<noteq> Num 0)"


section \<open>The buffer pool\<close>

definition acquireBuffer :: "state \<Rightarrow> buffer option \<times> state" where
  "acquireBuffer st =
     (case bufferStack st of
        [] \<Rightarrow> (Some (allocated st), st\<lparr>allocated := Suc (allocated st)\<rparr>)
      | b # bs \<Rightarrow> (b, st\<lparr>bufferStack := bs\<rparr>))"

definition releaseBuffer :: "buffer option \<Rightarrow> state \<Rightarrow> state" where
  "releaseBuffer b st = st\<lparr>bufferStack := b # bufferStack st\<rparr>"

section \<open>The scheduler\<close>

definition upd_input :: "node_ref \<Rightarrow> nat \<Rightarrow> (port \<Rightarrow> port) \<Rightarrow> state \<Rightarrow> state" where
  "upd_input n i f st =
     st\<lparr>nodes := (nodes st)(n := (nodes st n)
        \<lparr>node.inputs := (node.inputs (nodes st n))[i := f (node.inputs (nodes st n) ! i)]\<rparr>)\<rparr>"

definition upd_output :: "node_ref \<Rightarrow> nat \<Rightarrow> (port \<Rightarrow> port) \<Rightarrow> state \<Rightarrow> state" where
  "upd_output n i f st =
     st\<lparr>nodes := (nodes st)(n := (nodes st n)
        \<lparr>node.outputs := (node.outputs (nodes st n))[i := f (node.outputs (nodes st n) ! i)]\<rparr>)\<rparr>"

text \<open>Lines 91-93: \<open>for (let output of node.outputs) output.buffer = acquireBuffer()\<close>.\<close>

fun acquire_outputs :: "node_ref \<Rightarrow> nat list \<Rightarrow> state \<Rightarrow> state" where
  "acquire_outputs n [] st = st"
| "acquire_outputs n (i # is) st =
     (case acquireBuffer st of
        (b, st') \<Rightarrow> acquire_outputs n is (upd_output n i (\<lambda>p. p\<lparr>port.buffer := b\<rparr>) st'))"

text \<open>
  Lines 100-105, after \<open>visit(input.connection.node)\<close> has returned \<open>r\<close>: \<open>input\<close> is the
  port \<open>i\<close> of node \<open>n\<close>, \<open>outputs.find(...)\<close> is \<open>find\<close>, and \<open>correspondingBuffer?.buffer\<close>
  is \<open>undefined\<close> when nothing was found.
\<close>

definition bind_connected :: "node_ref \<Rightarrow> nat \<Rightarrow> visit_result \<Rightarrow> state \<Rightarrow> state" where
  "bind_connected n i r st =
     (let input = node.inputs (nodes st n) ! i;
          correspondingBuffer =
            find (\<lambda>assn. BufferAssignment.port assn = port.name input) (visit_result.outputs r)
      in upd_input n i (\<lambda>p. p\<lparr>port.latency := visit_result.latency r,
           port.buffer := (case correspondingBuffer of None \<Rightarrow> None
                           | Some assn \<Rightarrow> BufferAssignment.buffer assn)\<rparr>) st)"

text \<open>Lines 108-111, for the unconnected port \<open>i\<close> of node \<open>n\<close>.\<close>

definition bind_unconnected :: "node_ref \<Rightarrow> nat \<Rightarrow> state \<Rightarrow> state" where
  "bind_unconnected n i st =
     (let st1 = upd_input n i (\<lambda>p. p\<lparr>port.latency := Some (Num 0)\<rparr>) st in
      case acquireBuffer st1 of
        (b, st2) \<Rightarrow>
          (let st3 = upd_input n i (\<lambda>p. p\<lparr>port.buffer := b\<rparr>) st2 in
           releaseBuffer (port.buffer (node.inputs (nodes st3 n) ! i)) st3))"

text \<open>
  Lines 96-113, the loop over the input ports of node \<open>n\<close>, by index; \<open>v\<close> is the
  recursive call of \<open>visit\<close>.
\<close>

fun bind_inputs ::
  "(node_ref \<Rightarrow> state \<Rightarrow> (visit_result \<times> state) option) \<Rightarrow> node_ref \<Rightarrow> nat list \<Rightarrow> state
     \<Rightarrow> state option" where
  "bind_inputs v n [] st = Some st"
| "bind_inputs v n (i # is) st =
     (case port.connection (node.inputs (nodes st n) ! i) of
        Some c \<Rightarrow>
          (case v (connection.node c) st of
             None \<Rightarrow> None
           | Some (r, st') \<Rightarrow> bind_inputs v n is (bind_connected n i r st'))
      | None \<Rightarrow> bind_inputs v n is (bind_unconnected n i st))"

text \<open>Lines 116-118: \<open>for (let output of node.outputs) releaseBuffer(output.buffer)\<close>.\<close>

definition release_outputs :: "node_ref \<Rightarrow> state \<Rightarrow> state" where
  "release_outputs n st =
     foldl (\<lambda>s p. releaseBuffer (port.buffer p) s) st (node.outputs (nodes st n))"

text \<open>Lines 121-123.\<close>

definition maxInputLatency :: "node \<Rightarrow> number" where
  "maxInputLatency nd =
     foldl math_max (Num 0) (map (\<lambda>p. to_number (port.latency p)) (node.inputs nd))"

text \<open>Lines 126-131, for one input port.\<close>

definition compensate :: "number \<Rightarrow> port \<Rightarrow> port" where
  "compensate m p =
     (let compensation = num_sub m (to_number (port.latency p)) in
      if not_zero compensation then p\<lparr>port.compensation := Some compensation\<rparr> else p)"

text \<open>Lines 137-146: the bindings of a step, read from the ports.\<close>

definition input_binding :: "port \<Rightarrow> BufferAssignment" where
  "input_binding p =
     \<lparr>BufferAssignment.port = port.name p, buffer = port.buffer p,
      compensation = port.compensation p\<rparr>"

definition output_binding :: "port \<Rightarrow> BufferAssignment" where
  "output_binding p =
     \<lparr>BufferAssignment.port = port.name p, buffer = port.buffer p, compensation = None\<rparr>"

definition step_of :: "node_ref \<Rightarrow> node \<Rightarrow> Scheduled" where
  "step_of n nd =
     \<lparr>Scheduled.node = n, inputs = map input_binding (node.inputs nd),
      outputs = map output_binding (node.outputs nd)\<rparr>"

text \<open>
  Lines 121-152: the latency, the compensations, the step appended to \<open>order\<close> and the
  \<open>visited\<close> flag.
\<close>

definition finish :: "node_ref \<Rightarrow> state \<Rightarrow> state" where
  "finish n st =
     (let nd = nodes st n;
          m = maxInputLatency nd;
          nd1 = nd\<lparr>node.inputs := map (compensate m) (node.inputs nd)\<rparr>;
          nd2 = nd1\<lparr>node.latency := Some (num_add m (Num (delay nd1)))\<rparr>
      in st\<lparr>nodes := (nodes st)(n := nd2\<lparr>visited := True\<rparr>),
            order := order st @ [step_of n nd2]\<rparr>)"

text \<open>Lines 157-166: what \<open>visit\<close> returns.\<close>

definition result :: "node \<Rightarrow> visit_result" where
  "result nd =
     \<lparr>visit_result.latency = node.latency nd,
      outputs = map (\<lambda>p. \<lparr>BufferAssignment.port =
                              (case port.connection p of Some c \<Rightarrow> connection.port c
                               | None \<Rightarrow> ''''),
                           buffer = port.buffer p,
                           compensation = None\<rparr>) (node.outputs nd)\<rparr>"

text \<open>
  \<open>visit\<close>, lines 88-167. The recursion follows the graph and need not end, so the first
  argument bounds the depth of the calls: \<open>None\<close> means that the bound was reached.
\<close>

primrec visit :: "nat \<Rightarrow> node_ref \<Rightarrow> state \<Rightarrow> (visit_result \<times> state) option" where
  "visit 0 n st = None"
| "visit (Suc k) n st =
     (if \<not> visited (nodes st n) then
        (let st1 = acquire_outputs n [0..<length (node.outputs (nodes st n))] st in
         case bind_inputs (visit k) n [0..<length (node.inputs (nodes st1 n))] st1 of
           None \<Rightarrow> None
         | Some st2 \<Rightarrow>
             (let st3 = finish n (release_outputs n st2) in Some (result (nodes st3 n), st3)))
      else Some (result (nodes st n), st))"

text \<open>
  \<open>schedule\<close>, lines 75-170, on the heap \<open>g\<close> in which \<open>a\<close> buffers exist already.
  \<open>run\<close> also gives the state it leaves behind.
\<close>

definition run :: "nat \<Rightarrow> node_ref \<Rightarrow> (node_ref \<Rightarrow> node) \<Rightarrow> nat \<Rightarrow> state option" where
  "run k root g a =
     map_option snd (visit k root \<lparr>nodes = g, allocated = a, bufferStack = [], order = []\<rparr>)"

definition schedule ::
  "nat \<Rightarrow> node_ref \<Rightarrow> (node_ref \<Rightarrow> node) \<Rightarrow> nat \<Rightarrow> Scheduled list option" where
  "schedule k root g a = map_option order (run k root g a)"

section \<open>Rendering\<close>




section \<open>Graphs\<close>

text \<open>Object literals: a port and a node whose transient fields are not set yet.\<close>

definition mk_port :: "string \<Rightarrow> connection option \<Rightarrow> port" where
  "mk_port nm c =
     \<lparr>port.name = nm, connection = c, latency = None, compensation = None, buffer = None\<rparr>"

definition mk_node :: "string \<Rightarrow> int \<Rightarrow> port list \<Rightarrow> port list \<Rightarrow> node" where
  "mk_node nm d ins outs =
     \<lparr>node.name = nm, inputs = ins, outputs = outs, latency = None, delay = d,
      visited = False\<rparr>"

definition conn :: "node_ref \<Rightarrow> string \<Rightarrow> connection option" where
  "conn n p = Some \<lparr>connection.node = n, port = p\<rparr>"

definition no_nodes :: "node_ref \<Rightarrow> node" where
  "no_nodes = (\<lambda>_. mk_node [] 0 [] [])"

text \<open>
  The graph of lines 175-218, with \<open>source\<close>, \<open>left\<close>, \<open>right\<close> and \<open>sink\<close> at the
  references 0, 1, 2 and 3.
\<close>

definition example :: "node_ref \<Rightarrow> node" where
  "example = no_nodes
     (0 := mk_node ''source'' 0 []
             [mk_port ''out1'' (conn 1 ''in1''), mk_port ''out2'' (conn 2 ''in1'')],
      1 := mk_node ''Left'' 1 [mk_port ''in1'' (conn 0 ''out1'')]
             [mk_port ''out1'' (conn 3 ''in1'')],
      2 := mk_node ''Right'' 2 [mk_port ''in1'' (conn 0 ''out2'')]
             [mk_port ''out1'' (conn 3 ''in2'')],
      3 := mk_node ''Sink'' 0
             [mk_port ''in1'' (conn 1 ''out1''), mk_port ''in2'' (conn 2 ''out2'')] [])"

text \<open>
  A fan-out: the one output of \<open>src\<close> (reference 0) feeds the input \<open>a\<close> of node 1 and the
  input \<open>b\<close> of node 2; an output port holds one connection, here the one to node 1.
  Node 3 is the root and mixes the two.
\<close>

definition fan_out :: "node_ref \<Rightarrow> node" where
  "fan_out = no_nodes
     (0 := mk_node ''src'' 0 [] [mk_port ''out'' (conn 1 ''a'')],
      1 := mk_node ''A'' 0 [mk_port ''a'' (conn 0 ''out'')] [mk_port ''out'' (conn 3 ''x'')],
      2 := mk_node ''B'' 0 [mk_port ''b'' (conn 0 ''out'')] [mk_port ''out'' (conn 3 ''y'')],
      3 := mk_node ''mix'' 0 [mk_port ''x'' (conn 1 ''out''), mk_port ''y'' (conn 2 ''out'')]
             [])"

text \<open>
  A malformed graph: the input \<open>in\<close> of the root (reference 1) names the output \<open>out\<close> of
  node 0, whose output port has no connection and so reports the port name \<open>""\<close>.
\<close>

definition dangling :: "node_ref \<Rightarrow> node" where
  "dangling = no_nodes
     (0 := mk_node ''gen'' 0 [] [mk_port ''out'' None],
      1 := mk_node ''root'' 0 [mk_port ''in'' (conn 0 ''out'')] [])"


section \<open>The graph behind a heap\<close>

text \<open>
  \<open>edges g\<close> has a pair \<open>(n, m)\<close> when an input port of node \<open>n\<close> is connected to node \<open>m\<close>:
  these are the references that \<open>visit\<close> follows. A heap is acyclic when no chain of
  such references goes on for ever; a heap holds finitely many nodes, and then this says
  that there is no cycle (see \<open>acyclic_graph_finite\<close> below).
\<close>

definition edges :: "(node_ref \<Rightarrow> node) \<Rightarrow> (node_ref \<times> node_ref) set" where
  "edges g = {(n, m). \<exists>p \<in> set (node.inputs (g n)). \<exists>c. port.connection p = Some c \<and> connection.node c = m}"

definition acyclic_graph :: "(node_ref \<Rightarrow> node) \<Rightarrow> bool" where
  "acyclic_graph g = wf ((edges g)\<inverse>)"

definition reachable :: "(node_ref \<Rightarrow> node) \<Rightarrow> node_ref \<Rightarrow> node_ref set" where
  "reachable g root = (edges g)\<^sup>* `` {root}"

text \<open>What \<open>visit\<close> never writes: names, connections and delays.\<close>

definition port_shape :: "port \<Rightarrow> string \<times> connection option" where
  "port_shape p = (port.name p, port.connection p)"

type_synonym node_shape = "string \<times> (string \<times> connection option) list \<times> (string \<times> connection option) list \<times> int"

definition node_shape :: "node \<Rightarrow> node_shape" where
  "node_shape nd = (node.name nd, map port_shape (node.inputs nd), map port_shape (node.outputs nd), delay nd)"

definition shape :: "(node_ref \<Rightarrow> node) \<Rightarrow> node_ref \<Rightarrow> node_shape" where
  "shape g n = node_shape (g n)"

section \<open>The invariant of the traversal\<close>

text \<open>
  \<open>vis st\<close> are the nodes marked visited. \<open>bound st n i\<close> says that input \<open>i\<close> of node \<open>n\<close>
  holds what lines 100-111 write: latency 0 and a buffer when it is unconnected, the
  latency of the visited upstream node and the buffer looked up in its result
  otherwise. \<open>compensated g st n i\<close> says that its compensation is the one of lines
  126-131, the field keeping the value it has in the initial heap \<open>g\<close> when the
  difference is zero. A visited node is \<open>settled\<close>; \<open>inv g st\<close> collects what holds between
  two calls of \<open>visit\<close>, and \<open>in_progress\<close> what holds inside the loop over the inputs of
  node \<open>n\<close>, entered in state \<open>s0\<close>, when the inputs in \<open>is\<close> remain. \<open>finished nd\<close> is the
  node that lines 121-152 leave.
\<close>

definition vis :: "state \<Rightarrow> node_ref set" where
  "vis st = {x. visited (nodes st x)}"

definition corresponding :: "string \<Rightarrow> BufferAssignment list \<Rightarrow> buffer option" where
  "corresponding nm outs =
     (case find (\<lambda>assn. BufferAssignment.port assn = nm) outs of
        None \<Rightarrow> None | Some assn \<Rightarrow> BufferAssignment.buffer assn)"

definition bound :: "state \<Rightarrow> node_ref \<Rightarrow> nat \<Rightarrow> bool" where
  "bound st n i =
     (let p = node.inputs (nodes st n) ! i in
      case port.connection p of
        None \<Rightarrow> port.latency p = Some (Num 0) \<and> port.buffer p \<noteq> None
      | Some c \<Rightarrow>
          connection.node c \<in> vis st \<and>
          port.latency p = node.latency (nodes st (connection.node c)) \<and>
          port.buffer p =
            corresponding (port.name p)
              (visit_result.outputs (result (nodes st (connection.node c)))))"

definition compensated :: "(node_ref \<Rightarrow> node) \<Rightarrow> state \<Rightarrow> node_ref \<Rightarrow> nat \<Rightarrow> bool" where
  "compensated g st n i =
     (let nd = nodes st n; p = node.inputs nd ! i;
          d = num_sub (maxInputLatency nd) (to_number (port.latency p))
      in port.compensation p =
           (if not_zero d then Some d else port.compensation (node.inputs (g n) ! i)))"

definition settled :: "(node_ref \<Rightarrow> node) \<Rightarrow> state \<Rightarrow> node_ref \<Rightarrow> bool" where
  "settled g st n =
     (let nd = nodes st n in
      node.latency nd = Some (num_add (maxInputLatency nd) (Num (delay nd))) \<and>
      (\<forall>i<length (node.inputs nd). bound st n i \<and> compensated g st n i) \<and>
      (\<forall>p\<in>set (node.outputs nd). port.buffer p \<noteq> None) \<and>
      step_of n nd \<in> set (order st))"

definition inv :: "(node_ref \<Rightarrow> node) \<Rightarrow> state \<Rightarrow> bool" where
  "inv g st \<longleftrightarrow>
     shape (nodes st) = shape g \<and>
     None \<notin> set (bufferStack st) \<and>
     distinct (map Scheduled.node (order st)) \<and>
     Scheduled.node ` set (order st) = vis st \<and>
     (\<forall>x\<in>vis st. \<forall>y. (x, y) \<in> edges g \<longrightarrow> y \<in> vis st) \<and>
     (\<forall>i<length (order st). \<forall>y. (Scheduled.node (order st ! i), y) \<in> edges g \<longrightarrow>
        (\<exists>j<i. Scheduled.node (order st ! j) = y)) \<and>
     (\<forall>x\<in>vis st. settled g st x) \<and>
     (\<forall>x. x \<notin> vis st \<longrightarrow>
        map port.compensation (node.inputs (nodes st x)) =
        map port.compensation (node.inputs (g x)))"

definition in_progress ::
  "(node_ref \<Rightarrow> node) \<Rightarrow> state \<Rightarrow> node_ref \<Rightarrow> nat list \<Rightarrow> state \<Rightarrow> bool" where
  "in_progress g s0 n is s \<longleftrightarrow>
     inv g s \<and> n \<notin> vis s \<and>
     node.outputs (nodes s n) = node.outputs (nodes s0 n) \<and>
     (\<forall>x. (n, x) \<notin> (edges g)\<^sup>* \<longrightarrow> nodes s x = nodes s0 x) \<and>
     (\<forall>x\<in>vis s0. nodes s x = nodes s0 x) \<and>
     (\<forall>i\<in>set is. i < length (node.inputs (nodes s n))) \<and>
     (\<forall>i<length (node.inputs (nodes s n)). i \<notin> set is \<longrightarrow> bound s n i)"

definition visit_ok :: "(node_ref \<Rightarrow> node) \<Rightarrow> nat \<Rightarrow> bool" where
  "visit_ok g k \<longleftrightarrow>
     (\<forall>m s r s'. visit k m s = Some (r, s') \<longrightarrow> inv g s \<longrightarrow>
        inv g s' \<and> m \<in> vis s' \<and> r = result (nodes s' m) \<and>
        (\<forall>x. (m, x) \<notin> (edges g)\<^sup>* \<longrightarrow> nodes s' x = nodes s x) \<and>
        (\<forall>x\<in>vis s. nodes s' x = nodes s x))"

definition finished :: "node \<Rightarrow> node" where
  "finished nd =
     nd\<lparr>node.inputs := map (compensate (maxInputLatency nd)) (node.inputs nd),
        node.latency := Some (num_add (maxInputLatency nd) (Num (delay nd))),
        visited := True\<rparr>"

text \<open>
  Every lookup of lines 101-103 finds a binding: the name of each connected input port
  is among the port names that the upstream node reports (lines 159-165).
\<close>

definition lookup_ok :: "(node_ref \<Rightarrow> node) \<Rightarrow> bool" where
  "lookup_ok g \<longleftrightarrow>
     (\<forall>n. \<forall>p\<in>set (node.inputs (g n)). \<forall>c. port.connection p = Some c \<longrightarrow>
        port.name p \<in> BufferAssignment.port `
          set (visit_result.outputs (result (g (connection.node c)))))"

text \<open>The integer in a latency field.\<close>

definition int_of :: "number option \<Rightarrow> int" where
  "int_of x = (case x of Some (Num l) \<Rightarrow> l | _ \<Rightarrow> 0)"

section \<open>Evaluation on concrete graphs\<close>

lemmas graph_defs = no_nodes_def mk_node_def mk_port_def conn_def

lemmas schedule_defs =
  schedule_def run_def acquireBuffer_def releaseBuffer_def upd_input_def upd_output_def
  bind_connected_def bind_unconnected_def
  release_outputs_def maxInputLatency_def compensate_def finish_def result_def
  input_binding_def output_binding_def step_of_def
  to_number_def not_zero_def Let_def upt_rec

text \<open>
  C2. Buffer reuse is not sound on the repository's own example: \<open>Left\<close> (second step)
  writes its output into buffer 0, which the first input of \<open>Sink\<close> (fourth step) reads,
  and \<open>Right\<close> (third step, between the two) is given the same buffer 0 for its output.
\<close>

theorem example_schedule:
  "schedule (Suc (Suc (Suc 0))) 3 example 0 = Some
     [\<lparr>Scheduled.node = 0, inputs = [],
       outputs = [\<lparr>BufferAssignment.port = ''out1'', buffer = Some 1, compensation = None\<rparr>,
                  \<lparr>BufferAssignment.port = ''out2'', buffer = Some 2, compensation = None\<rparr>]\<rparr>,
      \<lparr>Scheduled.node = 1,
       inputs = [\<lparr>BufferAssignment.port = ''in1'', buffer = Some 1, compensation = None\<rparr>],
       outputs = [\<lparr>BufferAssignment.port = ''out1'', buffer = Some 0, compensation = None\<rparr>]\<rparr>,
      \<lparr>Scheduled.node = 2,
       inputs = [\<lparr>BufferAssignment.port = ''in1'', buffer = Some 1, compensation = None\<rparr>],
       outputs = [\<lparr>BufferAssignment.port = ''out1'', buffer = Some 0, compensation = None\<rparr>]\<rparr>,
      \<lparr>Scheduled.node = 3,
       inputs = [\<lparr>BufferAssignment.port = ''in1'', buffer = Some 0,
                   compensation = Some (Num 1)\<rparr>,
                 \<lparr>BufferAssignment.port = ''in2'', buffer = Some 0, compensation = None\<rparr>],
       outputs = []\<rparr>]"
  by (simp add: example_def graph_defs schedule_defs)

text \<open>
  C3. On the fan-out graph the source is scheduled once, and consumer \<open>A\<close> reads the
  buffer 1 of its output, but the binding of consumer \<open>B\<close> has no buffer at all: the
  lookup compares the consumer's own port name \<open>b\<close> with the single name \<open>a\<close> stored
  on the output port.
\<close>

theorem fan_out_schedule:
  "schedule (Suc (Suc (Suc 0))) 3 fan_out 0 = Some
     [\<lparr>Scheduled.node = 0, inputs = [],
       outputs = [\<lparr>BufferAssignment.port = ''out'', buffer = Some 1, compensation = None\<rparr>]\<rparr>,
      \<lparr>Scheduled.node = 1,
       inputs = [\<lparr>BufferAssignment.port = ''a'', buffer = Some 1, compensation = None\<rparr>],
       outputs = [\<lparr>BufferAssignment.port = ''out'', buffer = Some 0, compensation = None\<rparr>]\<rparr>,
      \<lparr>Scheduled.node = 2,
       inputs = [\<lparr>BufferAssignment.port = ''b'', buffer = None, compensation = None\<rparr>],
       outputs = [\<lparr>BufferAssignment.port = ''out'', buffer = Some 0, compensation = None\<rparr>]\<rparr>,
      \<lparr>Scheduled.node = 3,
       inputs = [\<lparr>BufferAssignment.port = ''x'', buffer = Some 0, compensation = None\<rparr>,
                 \<lparr>BufferAssignment.port = ''y'', buffer = Some 0, compensation = None\<rparr>],
       outputs = []\<rparr>]"
  by (simp add: fan_out_def graph_defs schedule_defs)

text \<open>
  C7, as stated, fails: on the malformed graph \<open>schedule\<close> returns a schedule, and the
  step of the root binds its input to no buffer.
\<close>

theorem dangling_schedule:
  "schedule (Suc (Suc 0)) 1 dangling 0 = Some
     [\<lparr>Scheduled.node = 0, inputs = [],
       outputs = [\<lparr>BufferAssignment.port = ''out'', buffer = Some 0, compensation = None\<rparr>]\<rparr>,
      \<lparr>Scheduled.node = 1,
       inputs = [\<lparr>BufferAssignment.port = ''in'', buffer = None, compensation = None\<rparr>],
       outputs = []\<rparr>]"
  by (simp add: dangling_def graph_defs schedule_defs)


text \<open>
  C9. When the root is already marked visited, \<open>schedule\<close> returns the empty schedule
  (as soon as one call of \<open>visit\<close> is allowed), and the state it leaves is the one it
  started in: no step appended, the pool untouched, no buffer created, no node changed.
\<close>

theorem schedule_visited_root:
  assumes "visited (g root)"
  shows "schedule (Suc k) root g a = Some [] \<and>
         run (Suc k) root g a = Some \<lparr>nodes = g, allocated = a, bufferStack = [], order = []\<rparr>"
  using assms by (simp add: schedule_def run_def)

theorem schedule_visited_root_witness:
  "visited ((example(3 := (example 3)\<lparr>visited := True\<rparr>)) 3) \<and>
   schedule (Suc 0) 3 (example(3 := (example 3)\<lparr>visited := True\<rparr>)) 5 = Some []"
  using schedule_visited_root [of "example(3 := (example 3)\<lparr>visited := True\<rparr>)" 3 0 5]
  by simp

section \<open>How the steps of \<open>visit\<close> change the state\<close>

lemma acquireBuffer_proj [simp]:
  "nodes (snd (acquireBuffer st)) = nodes st"
  "order (snd (acquireBuffer st)) = order st"
  by (simp_all add: acquireBuffer_def split: list.split)

lemma releaseBuffer_proj [simp]:
  "nodes (releaseBuffer b st) = nodes st"
  "order (releaseBuffer b st) = order st"
  "allocated (releaseBuffer b st) = allocated st"
  "bufferStack (releaseBuffer b st) = b # bufferStack st"
  by (simp_all add: releaseBuffer_def)

lemma upd_input_proj [simp]:
  "order (upd_input n i f st) = order st"
  "allocated (upd_input n i f st) = allocated st"
  "bufferStack (upd_input n i f st) = bufferStack st"
  "x \<noteq> n \<Longrightarrow> nodes (upd_input n i f st) x = nodes st x"
  "node.outputs (nodes (upd_input n i f st) x) = node.outputs (nodes st x)"
  "node.latency (nodes (upd_input n i f st) x) = node.latency (nodes st x)"
  "visited (nodes (upd_input n i f st) x) = visited (nodes st x)"
  "delay (nodes (upd_input n i f st) x) = delay (nodes st x)"
  "node.name (nodes (upd_input n i f st) x) = node.name (nodes st x)"
  "node.inputs (nodes (upd_input n i f st) n) = (node.inputs (nodes st n))[i := f (node.inputs (nodes st n) ! i)]"
  by (simp_all add: upd_input_def)

lemma upd_output_proj [simp]:
  "order (upd_output n i f st) = order st"
  "allocated (upd_output n i f st) = allocated st"
  "bufferStack (upd_output n i f st) = bufferStack st"
  "x \<noteq> n \<Longrightarrow> nodes (upd_output n i f st) x = nodes st x"
  "node.inputs (nodes (upd_output n i f st) x) = node.inputs (nodes st x)"
  "node.latency (nodes (upd_output n i f st) x) = node.latency (nodes st x)"
  "visited (nodes (upd_output n i f st) x) = visited (nodes st x)"
  "delay (nodes (upd_output n i f st) x) = delay (nodes st x)"
  "node.name (nodes (upd_output n i f st) x) = node.name (nodes st x)"
  "node.outputs (nodes (upd_output n i f st) n) = (node.outputs (nodes st n))[i := f (node.outputs (nodes st n) ! i)]"
  by (simp_all add: upd_output_def)

lemma map_shape_update:
  "port_shape (f (xs ! i)) = port_shape (xs ! i) \<Longrightarrow> map port_shape (xs[i := f (xs ! i)]) = map port_shape xs"
  by (cases "i < length xs") (auto simp add: list_eq_iff_nth_eq nth_list_update)

lemma shape_upd_input:
  assumes "\<And>p. port_shape (f p) = port_shape p"
  shows "shape (nodes (upd_input n i f st)) = shape (nodes st)"
proof
  fix x show "shape (nodes (upd_input n i f st)) x = shape (nodes st) x"
    by (cases "x = n") (simp_all add: shape_def node_shape_def map_shape_update assms)
qed

lemma shape_upd_output:
  assumes "\<And>p. port_shape (f p) = port_shape p"
  shows "shape (nodes (upd_output n i f st)) = shape (nodes st)"
proof
  fix x show "shape (nodes (upd_output n i f st)) x = shape (nodes st) x"
    by (cases "x = n") (simp_all add: shape_def node_shape_def map_shape_update assms)
qed

lemma edges_iff:
  "(n, m) \<in> edges g \<longleftrightarrow>
   (\<exists>nm c. (nm, Some c) \<in> set (map port_shape (node.inputs (g n))) \<and> connection.node c = m)"
  by (force simp: edges_def port_shape_def)

lemma shape_inputs:
  "shape g = shape g' \<Longrightarrow>
     map port_shape (node.inputs (g n)) = map port_shape (node.inputs (g' n))"
  by (metis (no_types) shape_def node_shape_def prod.inject)

lemma shape_outputs:
  "shape g = shape g' \<Longrightarrow>
     map port_shape (node.outputs (g n)) = map port_shape (node.outputs (g' n))"
  by (metis (no_types) shape_def node_shape_def prod.inject)

lemma shape_delay: "shape g = shape g' \<Longrightarrow> delay (g n) = delay (g' n)"
  by (metis (no_types) shape_def node_shape_def prod.inject)

lemma edges_shape: "shape g = shape g' \<Longrightarrow> edges g = edges g'"
proof -
  assume a: "shape g = shape g'"
  have "\<And>n m. (n, m) \<in> edges g \<longleftrightarrow> (n, m) \<in> edges g'"
    unfolding edges_iff shape_inputs [OF a] ..
  then show ?thesis by auto
qed


lemma acquireBuffer_frame:
  "acquireBuffer st = (b, st') \<Longrightarrow> nodes st' = nodes st \<and> order st' = order st"
  by (auto simp: acquireBuffer_def split: list.splits)

lemma port_shape_simps [simp]:
  "port_shape (p\<lparr>port.buffer := b\<rparr>) = port_shape p"
  "port_shape (p\<lparr>port.latency := l\<rparr>) = port_shape p"
  "port_shape (p\<lparr>port.compensation := c\<rparr>) = port_shape p"
  by (simp_all add: port_shape_def)

lemma acquire_outputs_shape: "shape (nodes (acquire_outputs n is st)) = shape (nodes st)"
proof (induction "is" arbitrary: st)
  case Nil
  show ?case by simp
next
  case (Cons i "is")
  obtain b st' where a: "acquireBuffer st = (b, st')" by (cases "acquireBuffer st")
  then have "nodes st' = nodes st" by (simp add: acquireBuffer_frame)
  then have "shape (nodes (upd_output n i (\<lambda>p. p\<lparr>port.buffer := b\<rparr>) st')) = shape (nodes st)"
    by (metis shape_upd_output port_shape_simps(1))
  with a Cons.IH show ?case by simp
qed

lemma bind_connected_shape: "shape (nodes (bind_connected n i r st)) = shape (nodes st)"
  by (simp add: bind_connected_def Let_def shape_upd_input)

lemma bind_unconnected_shape: "shape (nodes (bind_unconnected n i st)) = shape (nodes st)"
proof -
  let ?st1 = "upd_input n i (\<lambda>p. p\<lparr>port.latency := Some (Num 0)\<rparr>) st"
  obtain b st2 where a: "acquireBuffer ?st1 = (b, st2)" by (cases "acquireBuffer ?st1")
  then have "nodes st2 = nodes ?st1" by (simp add: acquireBuffer_frame)
  then have "shape (nodes (upd_input n i (\<lambda>p. p\<lparr>port.buffer := b\<rparr>) st2)) = shape (nodes ?st1)"
    by (metis shape_upd_input port_shape_simps(1))
  also have "\<dots> = shape (nodes st)" by (simp add: shape_upd_input)
  finally show ?thesis using a by (simp add: bind_unconnected_def Let_def)
qed

lemma foldl_release:
  "nodes (foldl (\<lambda>s p. releaseBuffer (port.buffer p) s) st ps) = nodes st \<and>
   order (foldl (\<lambda>s p. releaseBuffer (port.buffer p) s) st ps) = order st \<and>
   allocated (foldl (\<lambda>s p. releaseBuffer (port.buffer p) s) st ps) = allocated st \<and>
   bufferStack (foldl (\<lambda>s p. releaseBuffer (port.buffer p) s) st ps) =
     rev (map port.buffer ps) @ bufferStack st"
  by (induction ps arbitrary: st) simp_all

lemma release_outputs_proj [simp]:
  "nodes (release_outputs n st) = nodes st"
  "order (release_outputs n st) = order st"
  "allocated (release_outputs n st) = allocated st"
  "bufferStack (release_outputs n st) =
     rev (map port.buffer (node.outputs (nodes st n))) @ bufferStack st"
  by (simp_all add: release_outputs_def foldl_release)

lemma port_shape_compensate [simp]: "port_shape (compensate m p) = port_shape p"
  by (simp add: compensate_def Let_def)

lemma finish_shape: "shape (nodes (finish n st)) = shape (nodes st)"
proof
  fix x show "shape (nodes (finish n st)) x = shape (nodes st) x"
    by (cases "x = n") (simp_all add: finish_def Let_def shape_def node_shape_def comp_def)
qed

lemma bind_inputs_rule:
  assumes "bind_inputs v n is st = Some st'"
    and "I is st"
    and "\<And>i is st c r st1. I (i # is) st \<Longrightarrow>
           port.connection (node.inputs (nodes st n) ! i) = Some c \<Longrightarrow>
           v (connection.node c) st = Some (r, st1) \<Longrightarrow> I is (bind_connected n i r st1)"
    and "\<And>i is st. I (i # is) st \<Longrightarrow>
           port.connection (node.inputs (nodes st n) ! i) = None \<Longrightarrow>
           I is (bind_unconnected n i st)"
  shows "I [] st'"
  using assms(1,2)
proof (induction "is" arbitrary: st)
  case Nil
  then show ?case by simp
next
  case (Cons i "is")
  show ?case
  proof (cases "port.connection (node.inputs (nodes st n) ! i)")
    case None
    with Cons.prems have "bind_inputs v n is (bind_unconnected n i st) = Some st'" by simp
    moreover have "I is (bind_unconnected n i st)" using assms(4) Cons.prems(2) None by blast
    ultimately show ?thesis by (rule Cons.IH)
  next
    case (Some c)
    with Cons.prems obtain r st1 where v: "v (connection.node c) st = Some (r, st1)"
      and b: "bind_inputs v n is (bind_connected n i r st1) = Some st'"
      by (auto split: option.splits)
    have "I is (bind_connected n i r st1)" using assms(3) Cons.prems(2) Some v by blast
    with b show ?thesis by (rule Cons.IH)
  qed
qed

lemma bind_inputs_shape:
  assumes "bind_inputs v n is st = Some st'"
    and "\<And>m s r s'. v m s = Some (r, s') \<Longrightarrow> shape (nodes s') = shape (nodes s)"
  shows "shape (nodes st') = shape (nodes st)"
  by (rule bind_inputs_rule [OF assms(1), where I = "\<lambda>_ s. shape (nodes s) = shape (nodes st)"])
     (simp_all add: bind_connected_shape bind_unconnected_shape assms(2))

lemma visit_shape: "visit k n st = Some (r, st') \<Longrightarrow> shape (nodes st') = shape (nodes st)"
proof (induction k arbitrary: n st r st')
  case 0
  then show ?case by simp
next
  case (Suc k)
  show ?case
  proof (cases "visited (nodes st n)")
    case True
    with Suc.prems show ?thesis by simp
  next
    case False
    let ?st1 = "acquire_outputs n [0..<length (node.outputs (nodes st n))] st"
    from Suc.prems False obtain st2 where
      b: "bind_inputs (visit k) n [0..<length (node.inputs (nodes ?st1 n))] ?st1 = Some st2"
      and f: "st' = finish n (release_outputs n st2)"
      by (auto simp: Let_def split: option.splits)
    have "shape (nodes st2) = shape (nodes ?st1)"
      using b Suc.IH by (rule bind_inputs_shape)
    then show ?thesis by (simp add: f finish_shape acquire_outputs_shape)
  qed
qed

lemma bind_inputs_mono:
  assumes "bind_inputs v n is st = Some st'"
    and "\<And>m s x. v m s = Some x \<Longrightarrow> v' m s = Some x"
  shows "bind_inputs v' n is st = Some st'"
  using assms(1)
proof (induction "is" arbitrary: st)
  case Nil
  then show ?case by simp
next
  case (Cons i "is")
  show ?case
  proof (cases "port.connection (node.inputs (nodes st n) ! i)")
    case None
    with Cons show ?thesis by simp
  next
    case (Some c)
    with Cons.prems obtain r st1 where v: "v (connection.node c) st = Some (r, st1)"
      and b: "bind_inputs v n is (bind_connected n i r st1) = Some st'"
      by (auto split: option.splits)
    from v have "v' (connection.node c) st = Some (r, st1)" by (rule assms(2))
    with Some Cons.IH [OF b] show ?thesis by simp
  qed
qed

lemma visit_mono: "visit k n st = Some x \<Longrightarrow> visit (k + j) n st = Some x"
proof (induction k arbitrary: n st x)
  case 0
  then show ?case by simp
next
  case (Suc k)
  show ?case
  proof (cases "visited (nodes st n)")
    case True
    with Suc.prems show ?thesis by simp
  next
    case False
    let ?st1 = "acquire_outputs n [0..<length (node.outputs (nodes st n))] st"
    from Suc.prems False obtain st2 where
      b: "bind_inputs (visit k) n [0..<length (node.inputs (nodes ?st1 n))] ?st1 = Some st2"
      and f: "x = (result (nodes (finish n (release_outputs n st2)) n), finish n (release_outputs n st2))"
      by (auto simp: Let_def split: option.splits)
    have "bind_inputs (visit (k + j)) n [0..<length (node.inputs (nodes ?st1 n))] ?st1 = Some st2"
      using b Suc.IH by (rule bind_inputs_mono)
    with False f show ?thesis by (simp add: Let_def)
  qed
qed

lemma visit_mono_le: "visit k n st = Some x \<Longrightarrow> k \<le> k' \<Longrightarrow> visit k' n st = Some x"
  using visit_mono [of k n st x "k' - k"] by simp

lemma shape_length_inputs:
  "shape g = shape g' \<Longrightarrow> length (node.inputs (g n)) = length (node.inputs (g' n))"
  by (metis shape_inputs length_map)

lemma edge_nth:
  "i < length (node.inputs (g n)) \<Longrightarrow> port.connection (node.inputs (g n) ! i) = Some c \<Longrightarrow>
     (n, connection.node c) \<in> edges g"
  by (auto simp: edges_def intro!: bexI [of _ "node.inputs (g n) ! i"])

lemma visit_total:
  assumes "acyclic_graph g"
  shows "shape (nodes st) = shape g \<Longrightarrow> \<exists>k x. visit k n st = Some x"
  using assms [unfolded acyclic_graph_def]
proof (induction n arbitrary: st rule: wf_induct_rule)
  case (less n)
  have loop: "set is \<subseteq> {..<length (node.inputs (g n))} \<Longrightarrow> shape (nodes s) = shape g \<Longrightarrow>
      \<exists>k s'. bind_inputs (visit k) n is s = Some s'" for "is" s
  proof (induction "is" arbitrary: s)
    case Nil
    then show ?case by simp
  next
    case (Cons i "is")
    have i: "i < length (node.inputs (nodes s n))"
      using Cons.prems shape_length_inputs [of "nodes s" g n] by simp
    show ?case
    proof (cases "port.connection (node.inputs (nodes s n) ! i)")
      case None
      have "\<exists>k s'. bind_inputs (visit k) n is (bind_unconnected n i s) = Some s'"
        using Cons.prems by (intro Cons.IH) (simp_all add: bind_unconnected_shape)
      with None show ?thesis by simp
    next
      case (Some c)
      have "(n, connection.node c) \<in> edges g"
        using edge_nth [of i "nodes s" n c, OF i Some] edges_shape [OF Cons.prems(2)] by simp
      then obtain k1 r s1 where v: "visit k1 (connection.node c) s = Some (r, s1)"
        using less.IH [of "connection.node c" s] Cons.prems(2) by auto
      have "shape (nodes (bind_connected n i r s1)) = shape g"
        using visit_shape [OF v] Cons.prems(2) by (simp add: bind_connected_shape)
      then obtain k2 s' where b: "bind_inputs (visit k2) n is (bind_connected n i r s1) = Some s'"
        using Cons.IH [of "bind_connected n i r s1"] Cons.prems(1) by auto
      have "visit (k1 + k2) (connection.node c) s = Some (r, s1)"
        using v by (rule visit_mono)
      moreover have "bind_inputs (visit (k1 + k2)) n is (bind_connected n i r s1) = Some s'"
        using b
      proof (rule bind_inputs_mono)
        fix m s x assume "visit k2 m s = Some x"
        then show "visit (k1 + k2) m s = Some x" by (rule visit_mono_le) simp
      qed
      ultimately have "bind_inputs (visit (k1 + k2)) n (i # is) s = Some s'"
        using Some by simp
      then show ?thesis by blast
    qed
  qed
  show ?case
  proof (cases "visited (nodes st n)")
    case True
    then have "visit (Suc 0) n st = Some (result (nodes st n), st)" by simp
    then show ?thesis by blast
  next
    case False
    let ?st1 = "acquire_outputs n [0..<length (node.outputs (nodes st n))] st"
    have s1: "shape (nodes ?st1) = shape g"
      using less.prems by (simp add: acquire_outputs_shape)
    then have "set [0..<length (node.inputs (nodes ?st1 n))] \<subseteq> {..<length (node.inputs (g n))}"
      using shape_length_inputs [OF s1, of n] by auto
    with s1 obtain k s' where
      "bind_inputs (visit k) n [0..<length (node.inputs (nodes ?st1 n))] ?st1 = Some s'"
      using loop by blast
    with False have "\<exists>x. visit (Suc k) n st = Some x" by (simp add: Let_def)
    then show ?thesis by blast
  qed
qed

lemma run_total:
  assumes "acyclic_graph g"
  shows "\<exists>k st. \<forall>k'\<ge>k. run k' root g a = Some st"
proof -
  let ?st0 = "\<lparr>nodes = g, allocated = a, bufferStack = [], order = []\<rparr>"
  obtain k r st where v: "visit k root ?st0 = Some (r, st)"
    using visit_total [OF assms, of ?st0 root] by auto
  have "\<forall>k'\<ge>k. run k' root g a = Some st"
    using visit_mono_le [OF v] by (simp add: run_def)
  then show ?thesis by blast
qed

section \<open>Acyclic graphs\<close>

lemma acyclic_graph_rank:
  fixes rank :: "node_ref \<Rightarrow> nat"
  assumes "\<And>n p c. p \<in> set (node.inputs (g n)) \<Longrightarrow> port.connection p = Some c \<Longrightarrow>
             rank (connection.node c) < rank n"
  shows "acyclic_graph g"
proof -
  have "(edges g)\<inverse> \<subseteq> measure rank"
    using assms by (auto simp: edges_def)
  then show ?thesis
    unfolding acyclic_graph_def by (rule wf_subset [OF wf_measure])
qed

lemma acyclic_graph_acyclic: "acyclic_graph g \<Longrightarrow> acyclic (edges g)"
  unfolding acyclic_graph_def using wf_acyclic acyclic_converse by blast

lemma acyclic_graph_finite:
  assumes "finite (edges g)" and "acyclic (edges g)"
  shows "acyclic_graph g"
  unfolding acyclic_graph_def using assms by (rule finite_acyclic_wf_converse)

lemma example_acyclic: "acyclic_graph example"
  by (rule acyclic_graph_rank [where rank = id])
     (auto simp: example_def graph_defs split: if_splits)

section \<open>The invariant holds\<close>

lemma settled_cong:
  assumes "settled g s x" and "nodes s' x = nodes s x"
    and "\<And>i c. i < length (node.inputs (nodes s x)) \<Longrightarrow>
           port.connection (node.inputs (nodes s x) ! i) = Some c \<Longrightarrow>
           nodes s' (connection.node c) = nodes s (connection.node c)"
    and "set (order s) \<subseteq> set (order s')"
  shows "settled g s' x"
proof -
  have b: "bound s' x i" if "i < length (node.inputs (nodes s x))" "bound s x i" for i
    using that assms(2) assms(3) [OF that(1)]
    by (auto simp: bound_def Let_def vis_def split: option.splits)
  have c: "compensated g s' x i = compensated g s x i" for i
    by (simp add: compensated_def assms(2))
  show ?thesis
    using assms(1,4) b c by (auto simp: settled_def Let_def assms(2))
qed

lemma inv_shape: "inv g s \<Longrightarrow> shape (nodes s) = shape g"
  and inv_stack: "inv g s \<Longrightarrow> None \<notin> set (bufferStack s)"
  and inv_distinct: "inv g s \<Longrightarrow> distinct (map Scheduled.node (order s))"
  and inv_nodes: "inv g s \<Longrightarrow> Scheduled.node ` set (order s) = vis s"
  and inv_closed: "inv g s \<Longrightarrow> x \<in> vis s \<Longrightarrow> (x, y) \<in> edges g \<Longrightarrow> y \<in> vis s"
  and inv_topo: "inv g s \<Longrightarrow> i < length (order s) \<Longrightarrow>
      (Scheduled.node (order s ! i), y) \<in> edges g \<Longrightarrow> \<exists>j<i. Scheduled.node (order s ! j) = y"
  and inv_settled: "inv g s \<Longrightarrow> x \<in> vis s \<Longrightarrow> settled g s x"
  and inv_comp: "inv g s \<Longrightarrow> x \<notin> vis s \<Longrightarrow>
      map port.compensation (node.inputs (nodes s x)) =
      map port.compensation (node.inputs (g x))"
  unfolding inv_def by blast+

lemma inv_frame:
  assumes "inv g s" and "n \<notin> vis s" and "\<not> visited (nodes s' n)"
    and "\<And>x. x \<noteq> n \<Longrightarrow> nodes s' x = nodes s x"
    and "shape (nodes s') = shape (nodes s)"
    and "map port.compensation (node.inputs (nodes s' n)) =
         map port.compensation (node.inputs (nodes s n))"
    and "order s' = order s" and "None \<notin> set (bufferStack s')"
  shows "inv g s'"
proof -
  have "visited (nodes s' x) = visited (nodes s x)" for x
    using assms(2,3,4) by (cases "x = n") (simp_all add: vis_def)
  then have v: "vis s' = vis s" by (simp add: vis_def)
  have e: "edges (nodes s) = edges g"
    using inv_shape [OF assms(1)] by (rule edges_shape)
  have same: "nodes s' x = nodes s x" if "x \<in> vis s" for x
    using that assms(2) assms(4) [of x] by blast
  have "settled g s' x" if x: "x \<in> vis s" for x
  proof (rule settled_cong)
    show "settled g s x" using assms(1) x by (rule inv_settled)
    show "nodes s' x = nodes s x" using x by (rule same)
    show "set (order s) \<subseteq> set (order s')" by (simp add: assms(7))
  next
    fix i c
    assume "i < length (node.inputs (nodes s x))"
      "port.connection (node.inputs (nodes s x) ! i) = Some c"
    then have "(x, connection.node c) \<in> edges g"
      using edge_nth [of i "nodes s" x c] e by simp
    then have "connection.node c \<in> vis s"
      using inv_closed [OF assms(1) x] by blast
    then show "nodes s' (connection.node c) = nodes s (connection.node c)"
      by (rule same)
  qed
  moreover have "map port.compensation (node.inputs (nodes s' x)) =
        map port.compensation (node.inputs (g x))" if "x \<notin> vis s" for x
    using inv_comp [OF assms(1) that] assms(4) [of x] assms(6) by (cases "x = n") simp_all
  moreover have "shape (nodes s') = shape g"
    using inv_shape [OF assms(1)] assms(5) by simp
  moreover note inv_distinct [OF assms(1)] inv_nodes [OF assms(1)]
    inv_closed [OF assms(1)] inv_topo [OF assms(1)] assms(8)
  ultimately show ?thesis unfolding inv_def v assms(7) by blast
qed

lemma acquireBuffer_effect:
  assumes "acquireBuffer st = (b, st')" and "None \<notin> set (bufferStack st)"
  shows "b \<noteq> None \<and> None \<notin> set (bufferStack st') \<and> nodes st' = nodes st \<and> order st' = order st"
proof (cases "bufferStack st")
  case Nil
  with assms show ?thesis by (auto simp: acquireBuffer_def)
next
  case (Cons c cs)
  with assms show ?thesis by (cases c) (auto simp: acquireBuffer_def)
qed

lemma acquire_outputs_effect:
  assumes "None \<notin> set (bufferStack st)"
  shows "(\<forall>x. x \<noteq> n \<longrightarrow> nodes (acquire_outputs n is st) x = nodes st x) \<and>
     node.inputs (nodes (acquire_outputs n is st) n) = node.inputs (nodes st n) \<and>
     visited (nodes (acquire_outputs n is st) n) = visited (nodes st n) \<and>
     order (acquire_outputs n is st) = order st \<and>
     None \<notin> set (bufferStack (acquire_outputs n is st)) \<and>
     length (node.outputs (nodes (acquire_outputs n is st) n)) = length (node.outputs (nodes st n)) \<and>
     (\<forall>i<length (node.outputs (nodes st n)).
        if i \<in> set is then port.buffer (node.outputs (nodes (acquire_outputs n is st) n) ! i) \<noteq> None
        else node.outputs (nodes (acquire_outputs n is st) n) ! i = node.outputs (nodes st n) ! i)"
  using assms
proof (induction "is" arbitrary: st)
  case Nil
  then show ?case by simp
next
  case (Cons i "is")
  obtain b st' where a: "acquireBuffer st = (b, st')" by (cases "acquireBuffer st")
  note e = acquireBuffer_effect [OF a Cons.prems]
  let ?s = "upd_output n i (\<lambda>p. p\<lparr>port.buffer := b\<rparr>) st'"
  have r: "acquire_outputs n (i # is) st = acquire_outputs n is ?s" using a by simp
  have "None \<notin> set (bufferStack ?s)" using e by simp
  note ih = Cons.IH [OF this]
  have len: "length (node.outputs (nodes ?s n)) = length (node.outputs (nodes st n))"
    using e by simp
  have nth: "node.outputs (nodes ?s n) ! j =
      (if j = i then (node.outputs (nodes st n) ! i)\<lparr>port.buffer := b\<rparr>
       else node.outputs (nodes st n) ! j)" if "j < length (node.outputs (nodes st n))" for j
    using e that by (simp add: nth_list_update)
  show ?case unfolding r
  proof (intro conjI allI impI)
    fix x assume "x \<noteq> n"
    then show "nodes (acquire_outputs n is ?s) x = nodes st x" using ih e by simp
  next
    show "node.inputs (nodes (acquire_outputs n is ?s) n) = node.inputs (nodes st n)"
      using ih e by simp
    show "visited (nodes (acquire_outputs n is ?s) n) = visited (nodes st n)"
      using ih e by simp
    show "order (acquire_outputs n is ?s) = order st" using ih e by simp
    show "None \<notin> set (bufferStack (acquire_outputs n is ?s))" using ih by simp
    show "length (node.outputs (nodes (acquire_outputs n is ?s) n)) =
        length (node.outputs (nodes st n))" using ih len by simp
  next
    fix j assume j: "j < length (node.outputs (nodes st n))"
    then have "if j \<in> set is
       then port.buffer (node.outputs (nodes (acquire_outputs n is ?s) n) ! j) \<noteq> None
       else node.outputs (nodes (acquire_outputs n is ?s) n) ! j = node.outputs (nodes ?s n) ! j"
      using ih len by simp
    then show "if j \<in> set (i # is)
       then port.buffer (node.outputs (nodes (acquire_outputs n is ?s) n) ! j) \<noteq> None
       else node.outputs (nodes (acquire_outputs n is ?s) n) ! j = node.outputs (nodes st n) ! j"
      using nth [OF j] e by (auto split: if_splits)
  qed
qed

lemma bind_connected_nodes:
  "nodes (bind_connected n i r st) =
     (nodes st)(n := (nodes st n)\<lparr>node.inputs := (node.inputs (nodes st n))
        [i := (node.inputs (nodes st n) ! i)\<lparr>port.latency := visit_result.latency r,
           port.buffer := corresponding (port.name (node.inputs (nodes st n) ! i))
                            (visit_result.outputs r)\<rparr>]\<rparr>)"
  and bind_connected_order: "order (bind_connected n i r st) = order st"
  and bind_connected_stack: "bufferStack (bind_connected n i r st) = bufferStack st"
  by (simp_all add: bind_connected_def upd_input_def corresponding_def Let_def)

lemma bind_unconnected_effect:
  assumes "None \<notin> set (bufferStack st)" and i: "i < length (node.inputs (nodes st n))"
  shows "\<exists>b. b \<noteq> None \<and>
     nodes (bind_unconnected n i st) =
       (nodes st)(n := (nodes st n)\<lparr>node.inputs := (node.inputs (nodes st n))
          [i := (node.inputs (nodes st n) ! i)\<lparr>port.latency := Some (Num 0),
             port.buffer := b\<rparr>]\<rparr>) \<and>
     order (bind_unconnected n i st) = order st \<and>
     None \<notin> set (bufferStack (bind_unconnected n i st))"
proof -
  let ?st1 = "upd_input n i (\<lambda>p. p\<lparr>port.latency := Some (Num 0)\<rparr>) st"
  obtain b st2 where a: "acquireBuffer ?st1 = (b, st2)" by (cases "acquireBuffer ?st1")
  have "None \<notin> set (bufferStack ?st1)" using assms by simp
  note e = acquireBuffer_effect [OF a this]
  let ?st3 = "upd_input n i (\<lambda>p. p\<lparr>port.buffer := b\<rparr>) st2"
  have u: "bind_unconnected n i st = releaseBuffer (port.buffer (node.inputs (nodes ?st3 n) ! i)) ?st3"
    using a by (simp add: bind_unconnected_def Let_def)
  have "nodes ?st3 = (nodes st)(n := (nodes st n)\<lparr>node.inputs := (node.inputs (nodes st n))
          [i := (node.inputs (nodes st n) ! i)\<lparr>port.latency := Some (Num 0),
             port.buffer := b\<rparr>]\<rparr>)"
    using e i by (simp add: upd_input_def)
  moreover have "port.buffer (node.inputs (nodes ?st3 n) ! i) = b"
    using e i by (simp add: upd_input_def)
  ultimately show ?thesis unfolding u using e by (intro exI [of _ b]) auto
qed

lemma set_input_inv:
  assumes "inv g s" and "n \<notin> vis s"
    and n: "nodes s' = (nodes s)(n := (nodes s n)\<lparr>node.inputs := (node.inputs (nodes s n))[i := p']\<rparr>)"
    and "port_shape p' = port_shape (node.inputs (nodes s n) ! i)"
    and "port.compensation p' = port.compensation (node.inputs (nodes s n) ! i)"
    and "order s' = order s" and "None \<notin> set (bufferStack s')"
  shows "inv g s'"
  using assms(1,2)
proof (rule inv_frame)
  show "\<not> visited (nodes s' n)" using assms(2) by (simp add: n vis_def)
  show "nodes s' x = nodes s x" if "x \<noteq> n" for x using that by (simp add: n)
  have l: "xs[i := p'] = xs[i := (\<lambda>_. p') (xs ! i)]" for xs :: "port list" by simp
  show "shape (nodes s') = shape (nodes s)"
  proof
    fix x show "shape (nodes s') x = shape (nodes s) x"
      using assms(4) map_shape_update [of "\<lambda>_. p'" "node.inputs (nodes s n)" i]
      by (cases "x = n") (simp_all add: n shape_def node_shape_def)
  qed
  show "map port.compensation (node.inputs (nodes s' n)) =
      map port.compensation (node.inputs (nodes s n))"
    using assms(5)
    by (cases "i < length (node.inputs (nodes s n))")
       (auto simp add: n list_eq_iff_nth_eq nth_list_update)
  show "order s' = order s" by fact
  show "None \<notin> set (bufferStack s')" by fact
qed

lemma bound_cong:
  assumes "bound s n j"
    and "node.inputs (nodes s' n) ! j = node.inputs (nodes s n) ! j"
    and "\<And>c. port.connection (node.inputs (nodes s n) ! j) = Some c \<Longrightarrow>
           connection.node c \<in> vis s \<Longrightarrow>
           nodes s' (connection.node c) = nodes s (connection.node c)"
  shows "bound s' n j"
  using assms by (auto simp: bound_def Let_def vis_def split: option.splits)

lemma in_progress_unconnected:
  assumes p: "in_progress g s0 n (i # is) s"
    and c: "port.connection (node.inputs (nodes s n) ! i) = None"
  shows "in_progress g s0 n is (bind_unconnected n i s)"
proof -
  let ?s' = "bind_unconnected n i s"
  let ?p = "node.inputs (nodes s n) ! i"
  from p have inv: "inv g s" and n: "n \<notin> vis s" and i: "i < length (node.inputs (nodes s n))"
    by (simp_all add: in_progress_def)
  obtain b where b: "b \<noteq> None"
    and nd: "nodes ?s' = (nodes s)(n := (nodes s n)\<lparr>node.inputs := (node.inputs (nodes s n))
          [i := ?p\<lparr>port.latency := Some (Num 0), port.buffer := b\<rparr>]\<rparr>)"
    and ord: "order ?s' = order s" and stk: "None \<notin> set (bufferStack ?s')"
    using bind_unconnected_effect [OF inv_stack [OF inv] i] by blast
  have inv': "inv g ?s'"
    using inv n nd _ _ ord stk by (rule set_input_inv) simp_all
  have other: "nodes ?s' x = nodes s x" if "x \<noteq> n" for x using that by (simp add: nd)
  have v: "vis ?s' = vis s" by (auto simp: vis_def nd)
  have len: "length (node.inputs (nodes ?s' n)) = length (node.inputs (nodes s n))"
    by (simp add: nd)
  have "bound ?s' n j" if j: "j < length (node.inputs (nodes s n))" "j \<notin> set is" for j
  proof (cases "j = i")
    case True
    then show ?thesis using i b c by (simp add: bound_def nd)
  next
    case False
    with j p have "bound s n j" by (simp add: in_progress_def)
    then show ?thesis
    proof (rule bound_cong)
      show "node.inputs (nodes ?s' n) ! j = node.inputs (nodes s n) ! j"
        using False by (simp add: nd)
      show "nodes ?s' (connection.node c) = nodes s (connection.node c)"
        if "connection.node c \<in> vis s" for c
        using that n by (intro other) auto
    qed
  qed
  moreover have "nodes ?s' x = nodes s0 x" if "(n, x) \<notin> (edges g)\<^sup>*" for x
  proof -
    from that have "x \<noteq> n" by auto
    with p that show ?thesis by (simp add: other in_progress_def)
  qed
  moreover have "nodes ?s' x = nodes s0 x" if "x \<in> vis s0" for x
  proof -
    from p that have e: "nodes s x = nodes s0 x" by (simp add: in_progress_def)
    with that n have "x \<noteq> n" by (auto simp: vis_def)
    with e show ?thesis by (simp add: other)
  qed
  moreover have "node.outputs (nodes ?s' n) = node.outputs (nodes s0 n)"
    using p by (simp add: nd in_progress_def)
  ultimately show ?thesis
    using inv' n p unfolding in_progress_def v len by auto
qed

lemma result_latency [simp]: "visit_result.latency (result nd) = node.latency nd"
  by (simp add: result_def)

lemma in_progress_connected:
  assumes ac: "acyclic (edges g)" and ok: "visit_ok g k"
    and p: "in_progress g s0 n (i # is) s"
    and c: "port.connection (node.inputs (nodes s n) ! i) = Some c"
    and v: "visit k (connection.node c) s = Some (r, s1)"
  shows "in_progress g s0 n is (bind_connected n i r s1)"
proof -
  let ?m = "connection.node c"
  let ?s' = "bind_connected n i r s1"
  let ?p = "node.inputs (nodes s1 n) ! i"
  from p have inv: "inv g s" and n: "n \<notin> vis s" and i: "i < length (node.inputs (nodes s n))"
    by (simp_all add: in_progress_def)
  have edge: "(n, ?m) \<in> edges g"
    using edge_nth [of i "nodes s" n c, OF i c] edges_shape [OF inv_shape [OF inv]] by simp
  from ok v inv have inv1: "inv g s1" and m1: "?m \<in> vis s1" and r: "r = result (nodes s1 ?m)"
    and fr: "\<And>x. (?m, x) \<notin> (edges g)\<^sup>* \<Longrightarrow> nodes s1 x = nodes s x"
    and old: "\<And>x. x \<in> vis s \<Longrightarrow> nodes s1 x = nodes s x"
    unfolding visit_ok_def by blast+
  have "(?m, n) \<notin> (edges g)\<^sup>*"
  proof
    assume "(?m, n) \<in> (edges g)\<^sup>*"
    with edge have "(n, n) \<in> (edges g)\<^sup>+" by (rule rtrancl_into_trancl2)
    with ac show False by (simp add: acyclic_def)
  qed
  then have same: "nodes s1 n = nodes s n" by (rule fr)
  then have n1: "n \<notin> vis s1" using n by (simp add: vis_def)
  have nd: "nodes ?s' = (nodes s1)(n := (nodes s1 n)\<lparr>node.inputs := (node.inputs (nodes s1 n))
        [i := ?p\<lparr>port.latency := visit_result.latency r,
           port.buffer := corresponding (port.name ?p) (visit_result.outputs r)\<rparr>]\<rparr>)"
    by (rule bind_connected_nodes)
  have inv': "inv g ?s'"
    using inv1 n1 nd
    by (rule set_input_inv)
       (simp_all add: bind_connected_order bind_connected_stack inv_stack [OF inv1])
  have other: "nodes ?s' x = nodes s1 x" if "x \<noteq> n" for x using that by (simp add: nd)
  have v': "vis ?s' = vis s1" by (auto simp: vis_def nd)
  have len: "length (node.inputs (nodes ?s' n)) = length (node.inputs (nodes s n))"
    by (simp add: nd same)
  have "bound ?s' n j" if j: "j < length (node.inputs (nodes s n))" "j \<notin> set is" for j
  proof (cases "j = i")
    case True
    have "?m \<noteq> n" using m1 n1 by auto
    then have mm: "nodes ?s' ?m = nodes s1 ?m" by (rule other)
    have pi: "node.inputs (nodes ?s' n) ! i =
        ?p\<lparr>port.latency := node.latency (nodes s1 ?m),
           port.buffer := corresponding (port.name ?p)
             (visit_result.outputs (result (nodes s1 ?m)))\<rparr>"
      using i unfolding nd by (simp add: same r)
    have cp: "port.connection ?p = Some c" using c by (simp add: same)
    have mv: "?m \<in> vis ?s'" using m1 v' by simp
    show ?thesis
      unfolding bound_def Let_def True pi using cp mv mm by simp
  next
    case False
    with j p have "bound s n j" by (simp add: in_progress_def)
    then show ?thesis
    proof (rule bound_cong)
      show "node.inputs (nodes ?s' n) ! j = node.inputs (nodes s n) ! j"
        using False by (simp add: nd same)
      show "nodes ?s' (connection.node d) = nodes s (connection.node d)"
        if d: "connection.node d \<in> vis s" for d
      proof -
        have "connection.node d \<noteq> n" using d n by auto
        then show ?thesis using old [OF d] by (simp add: other)
      qed
    qed
  qed
  moreover have "nodes ?s' x = nodes s0 x" if x: "(n, x) \<notin> (edges g)\<^sup>*" for x
  proof -
    from x have "x \<noteq> n" by auto
    moreover have "(?m, x) \<notin> (edges g)\<^sup>*"
      using x edge by (meson converse_rtrancl_into_rtrancl)
    ultimately show ?thesis using p x fr by (simp add: other in_progress_def)
  qed
  moreover have "nodes ?s' x = nodes s0 x" if x: "x \<in> vis s0" for x
  proof -
    from p x have e: "nodes s x = nodes s0 x" by (simp add: in_progress_def)
    with x have xs: "x \<in> vis s" by (simp add: vis_def)
    with n have "x \<noteq> n" by auto
    with e old [OF xs] show ?thesis by (simp add: other)
  qed
  moreover have "node.outputs (nodes ?s' n) = node.outputs (nodes s0 n)"
    using p by (simp add: nd same in_progress_def)
  ultimately show ?thesis
    using inv' n1 p unfolding in_progress_def v' len by auto
qed

lemma bind_inputs_in_progress:
  assumes "acyclic (edges g)" and "visit_ok g k"
    and "bind_inputs (visit k) n is s = Some s'" and "in_progress g s0 n is s"
  shows "in_progress g s0 n [] s'"
  using assms(3,4)
proof (rule bind_inputs_rule)
  show "in_progress g s0 n is (bind_connected n i r s1)"
    if "in_progress g s0 n (i # is) s" "port.connection (node.inputs (nodes s n) ! i) = Some c"
      "visit k (connection.node c) s = Some (r, s1)" for i "is" s c r s1
    using assms(1,2) that by (rule in_progress_connected)
  show "in_progress g s0 n is (bind_unconnected n i s)"
    if "in_progress g s0 n (i # is) s" "port.connection (node.inputs (nodes s n) ! i) = None"
    for i "is" s
    using that by (rule in_progress_unconnected)
qed

lemma compensate_simps [simp]:
  "port.latency (compensate m p) = port.latency p"
  "port.buffer (compensate m p) = port.buffer p"
  "port.name (compensate m p) = port.name p"
  "port.connection (compensate m p) = port.connection p"
  "port.compensation (compensate m p) =
     (if not_zero (num_sub m (to_number (port.latency p)))
      then Some (num_sub m (to_number (port.latency p))) else port.compensation p)"
  by (simp_all add: compensate_def Let_def)

lemma finish_nodes: "nodes (finish n s) = (nodes s)(n := finished (nodes s n))"
  and finish_order: "order (finish n s) = order s @ [step_of n (finished (nodes s n))]"
  and finish_stack: "bufferStack (finish n s) = bufferStack s"
  by (simp_all add: finish_def finished_def Let_def step_of_def)

lemma maxInputLatency_finished [simp]: "maxInputLatency (finished nd) = maxInputLatency nd"
  by (simp add: maxInputLatency_def finished_def comp_def)

lemma finished_simps [simp]:
  "node.inputs (finished nd) = map (compensate (maxInputLatency nd)) (node.inputs nd)"
  "node.outputs (finished nd) = node.outputs nd"
  "node.latency (finished nd) = Some (num_add (maxInputLatency nd) (Num (delay nd)))"
  "delay (finished nd) = delay nd"
  "visited (finished nd)"
  by (simp_all add: finished_def)

lemma finish_inv:
  assumes inv: "inv g s" and n: "n \<notin> vis s"
    and b: "\<And>i. i < length (node.inputs (nodes s n)) \<Longrightarrow> bound s n i"
    and out: "\<And>p. p \<in> set (node.outputs (nodes s n)) \<Longrightarrow> port.buffer p \<noteq> None"
  shows "inv g (finish n (release_outputs n s))"
proof -
  let ?s' = "finish n (release_outputs n s)"
  let ?nd = "nodes s n"
  have nd: "nodes ?s' = (nodes s)(n := finished ?nd)" by (simp add: finish_nodes)
  have ord: "order ?s' = order s @ [step_of n (finished ?nd)]" by (simp add: finish_order)
  have v: "vis ?s' = insert n (vis s)" by (auto simp: vis_def nd)
  have other: "nodes ?s' x = nodes s x" if "x \<in> vis s" for x
    using that n by (auto simp: nd)
  have e: "edges (nodes s) = edges g" using inv_shape [OF inv] by (rule edges_shape)
  have up: "connection.node c \<in> vis s"
    if "i < length (node.inputs ?nd)" "port.connection (node.inputs ?nd ! i) = Some c" for i c
    using b [OF that(1)] that(2) by (simp add: bound_def Let_def)
  have succ: "y \<in> vis s" if "(n, y) \<in> edges g" for y
  proof -
    from that e have "(n, y) \<in> edges (nodes s)" by simp
    then obtain p c where "p \<in> set (node.inputs ?nd)" "port.connection p = Some c"
      "connection.node c = y" by (auto simp: edges_def)
    then show ?thesis using up by (auto simp: in_set_conv_nth)
  qed
  have 1: "shape (nodes ?s') = shape g"
    using inv_shape [OF inv] finish_shape [of n "release_outputs n s"] by simp
  have "None \<notin> port.buffer ` set (node.outputs ?nd)" using out by force
  then have 2: "None \<notin> set (bufferStack ?s')"
    using inv_stack [OF inv] by (simp add: finish_stack)
  have nn: "n \<notin> Scheduled.node ` set (order s)" using inv_nodes [OF inv] n by simp
  have 3: "distinct (map Scheduled.node (order ?s'))"
    using inv_distinct [OF inv] nn by (simp add: ord step_of_def)
  have 4: "Scheduled.node ` set (order ?s') = vis ?s'"
    using inv_nodes [OF inv] by (simp add: ord v step_of_def)
  have 5: "y \<in> vis ?s'" if "x \<in> vis ?s'" "(x, y) \<in> edges g" for x y
    using that succ inv_closed [OF inv] by (auto simp: v)
  have 6: "\<exists>j<i. Scheduled.node (order ?s' ! j) = y"
    if i: "i < length (order ?s')" and y: "(Scheduled.node (order ?s' ! i), y) \<in> edges g" for i y
  proof (cases "i < length (order s)")
    case True
    with y have "(Scheduled.node (order s ! i), y) \<in> edges g" by (simp add: ord nth_append)
    from inv_topo [OF inv True this] obtain j where j: "j < i" "Scheduled.node (order s ! j) = y"
      by blast
    with True have "Scheduled.node (order ?s' ! j) = y" by (simp add: ord nth_append)
    with j show ?thesis by blast
  next
    case False
    with i have il: "i = length (order s)" by (simp add: ord)
    with y have "(n, y) \<in> edges g" by (simp add: ord step_of_def)
    then have "y \<in> Scheduled.node ` set (order s)" using succ inv_nodes [OF inv] by simp
    then obtain j where j: "j < length (order s)" "Scheduled.node (order s ! j) = y"
      by (auto simp: in_set_conv_nth)
    then have "Scheduled.node (order ?s' ! j) = y" by (simp add: ord nth_append)
    with j il show ?thesis by blast
  qed
  have 7: "settled g ?s' x" if x: "x \<in> vis ?s'" for x
  proof (cases "x = n")
    case False
    with x have xs: "x \<in> vis s" by (simp add: v)
    show ?thesis
    proof (rule settled_cong)
      show "settled g s x" using inv xs by (rule inv_settled)
      show "nodes ?s' x = nodes s x" using xs by (rule other)
      show "set (order s) \<subseteq> set (order ?s')" by (auto simp: ord)
    next
      fix i c
      assume "i < length (node.inputs (nodes s x))"
        "port.connection (node.inputs (nodes s x) ! i) = Some c"
      then have "(x, connection.node c) \<in> edges g"
        using edge_nth [of i "nodes s" x c] e by simp
      then have "connection.node c \<in> vis s" using inv_closed [OF inv xs] by blast
      then show "nodes ?s' (connection.node c) = nodes s (connection.node c)" by (rule other)
    qed
  next
    case True
    have bn: "bound ?s' n i" if i: "i < length (node.inputs ?nd)" for i
    proof -
      have "port.connection (node.inputs ?nd ! i) = Some c \<Longrightarrow>
          nodes ?s' (connection.node c) = nodes s (connection.node c)" for c
        using up [OF i] other by blast
      then show ?thesis
        using b [OF i] i by (auto simp: bound_def Let_def nd v split: option.splits)
    qed
    have cn: "compensated g ?s' n i" if i: "i < length (node.inputs ?nd)" for i
    proof -
      have "map port.compensation (node.inputs ?nd) ! i =
          map port.compensation (node.inputs (g n)) ! i"
        using inv_comp [OF inv n] by simp
      moreover have "i < length (node.inputs (g n))"
        using i shape_length_inputs [OF inv_shape [OF inv], of n] by simp
      ultimately have "port.compensation (node.inputs ?nd ! i) =
          port.compensation (node.inputs (g n) ! i)"
        using i by simp
      then show ?thesis using i by (simp add: compensated_def Let_def nd)
    qed
    have "node.inputs (nodes ?s' n) = map (compensate (maxInputLatency ?nd)) (node.inputs ?nd)"
      and "node.outputs (nodes ?s' n) = node.outputs ?nd"
      and "node.latency (nodes ?s' n) =
        Some (num_add (maxInputLatency (nodes ?s' n)) (Num (delay (nodes ?s' n))))"
      and "step_of n (nodes ?s' n) \<in> set (order ?s')"
      by (simp_all add: nd ord)
    then show ?thesis
      unfolding True settled_def Let_def using bn cn out by simp
  qed
  have 8: "map port.compensation (node.inputs (nodes ?s' x)) =
        map port.compensation (node.inputs (g x))" if "x \<notin> vis ?s'" for x
    using that inv_comp [OF inv, of x] by (simp add: v nd)
  from 5 have 5: "\<forall>x\<in>vis ?s'. \<forall>y. (x, y) \<in> edges g \<longrightarrow> y \<in> vis ?s'" by blast
  from 6 have 6: "\<forall>i<length (order ?s'). \<forall>y. (Scheduled.node (order ?s' ! i), y) \<in> edges g \<longrightarrow>
        (\<exists>j<i. Scheduled.node (order ?s' ! j) = y)" by blast
  from 7 have 7: "\<forall>x\<in>vis ?s'. settled g ?s' x" by blast
  from 8 have 8: "\<forall>x. x \<notin> vis ?s' \<longrightarrow>
        map port.compensation (node.inputs (nodes ?s' x)) =
        map port.compensation (node.inputs (g x))" by blast
  show ?thesis
    unfolding inv_def by (intro conjI 1 2 3 4 5 6 7 8)
qed

lemma visit_ok_all:
  assumes ac: "acyclic (edges g)"
  shows "visit_ok g k"
proof (induction k)
  case 0
  show ?case by (simp add: visit_ok_def)
next
  case (Suc k)
  show ?case unfolding visit_ok_def
  proof (intro allI impI)
    fix m s r s'
    assume v: "visit (Suc k) m s = Some (r, s')" and inv: "inv g s"
    show "inv g s' \<and> m \<in> vis s' \<and> r = result (nodes s' m) \<and>
        (\<forall>x. (m, x) \<notin> (edges g)\<^sup>* \<longrightarrow> nodes s' x = nodes s x) \<and>
        (\<forall>x\<in>vis s. nodes s' x = nodes s x)"
    proof (cases "visited (nodes s m)")
      case True
      with v inv show ?thesis by (auto simp: vis_def)
    next
      case False
      let ?os = "[0..<length (node.outputs (nodes s m))]"
      let ?s1 = "acquire_outputs m ?os s"
      let ?is = "[0..<length (node.inputs (nodes ?s1 m))]"
      from v False obtain s2 where
        b: "bind_inputs (visit k) m ?is ?s1 = Some s2"
        and s': "s' = finish m (release_outputs m s2)"
        and r: "r = result (nodes s' m)"
        by (auto simp: Let_def split: option.splits)
      note a = acquire_outputs_effect [OF inv_stack [OF inv], of m ?os]
      have m: "m \<notin> vis s" using False by (simp add: vis_def)
      have a1: "nodes ?s1 x = nodes s x" if "x \<noteq> m" for x using a that by blast
      have a2: "node.inputs (nodes ?s1 m) = node.inputs (nodes s m)" using a by blast
      have a3: "\<not> visited (nodes ?s1 m)" using a False by blast
      have a4: "order ?s1 = order s" using a by blast
      have a5: "None \<notin> set (bufferStack ?s1)" using a by blast
      have a6: "port.buffer p \<noteq> None" if p: "p \<in> set (node.outputs (nodes ?s1 m))" for p
      proof -
        from p obtain i where i: "i < length (node.outputs (nodes ?s1 m))"
          "p = node.outputs (nodes ?s1 m) ! i" by (auto simp: in_set_conv_nth)
        moreover have l: "length (node.outputs (nodes ?s1 m)) = length (node.outputs (nodes s m))"
          using a by blast
        moreover have "\<forall>i<length (node.outputs (nodes s m)).
            if i \<in> set ?os then port.buffer (node.outputs (nodes ?s1 m) ! i) \<noteq> None
            else node.outputs (nodes ?s1 m) ! i = node.outputs (nodes s m) ! i"
          using a by blast
        ultimately show ?thesis by simp
      qed
      have inv1: "inv g ?s1"
      proof (rule inv_frame [OF inv m a3])
        show "nodes ?s1 x = nodes s x" if "x \<noteq> m" for x using that by (rule a1)
        show "shape (nodes ?s1) = shape (nodes s)" by (rule acquire_outputs_shape)
        show "map port.compensation (node.inputs (nodes ?s1 m)) =
            map port.compensation (node.inputs (nodes s m))" by (simp only: a2)
        show "order ?s1 = order s" by (rule a4)
        show "None \<notin> set (bufferStack ?s1)" by (rule a5)
      qed
      have m1: "m \<notin> vis ?s1" using a3 by (simp add: vis_def)
      have "in_progress g ?s1 m ?is ?s1"
        unfolding in_progress_def using inv1 m1 by simp
      with ac Suc b have p: "in_progress g ?s1 m [] s2"
        by (rule bind_inputs_in_progress)
      then have inv2: "inv g s2" and m2: "m \<notin> vis s2"
        and o2: "node.outputs (nodes s2 m) = node.outputs (nodes ?s1 m)"
        and f2: "\<And>x. (m, x) \<notin> (edges g)\<^sup>* \<Longrightarrow> nodes s2 x = nodes ?s1 x"
        and v2: "\<And>x. x \<in> vis ?s1 \<Longrightarrow> nodes s2 x = nodes ?s1 x"
        and b2: "\<And>i. i < length (node.inputs (nodes s2 m)) \<Longrightarrow> bound s2 m i"
        unfolding in_progress_def by simp_all
      have o6: "port.buffer p \<noteq> None" if "p \<in> set (node.outputs (nodes s2 m))" for p
        using that a6 unfolding o2 by blast
      have inv': "inv g s'"
        unfolding s' using inv2 m2 b2 o6 by (rule finish_inv)
      have fin: "nodes s' x = nodes s2 x" if "x \<noteq> m" for x
        using that by (simp add: s' finish_nodes)
      have "nodes s' x = nodes s x" if x: "(m, x) \<notin> (edges g)\<^sup>*" for x
      proof -
        from x have "x \<noteq> m" by auto
        then show ?thesis using f2 [OF x] by (simp add: fin a1)
      qed
      moreover have "nodes s' x = nodes s x" if x: "x \<in> vis s" for x
      proof -
        from x m have xm: "x \<noteq> m" by auto
        with x have "x \<in> vis ?s1" by (simp add: vis_def a1)
        then show ?thesis using xm v2 by (simp add: fin a1)
      qed
      moreover have "m \<in> vis s'" by (simp add: s' vis_def finish_nodes)
      ultimately show ?thesis using inv' r by blast
    qed
  qed
qed

section \<open>Termination\<close>

text \<open>
  C8. On an acyclic graph the traversal terminates: some depth of recursion is enough
  for \<open>schedule\<close> to return a schedule, and every larger bound gives the same schedule.
\<close>

theorem schedule_terminates:
  assumes "acyclic_graph g"
  shows "\<exists>k ord. \<forall>k'\<ge>k. schedule k' root g a = Some ord"
proof -
  obtain k st where "\<forall>k'\<ge>k. run k' root g a = Some st"
    using run_total [OF assms] by blast
  then have "\<forall>k'\<ge>k. schedule k' root g a = Some (order st)"
    by (simp add: schedule_def)
  then show ?thesis by blast
qed

theorem schedule_terminates_witness:
  "acyclic_graph example \<and> (\<exists>k ord. \<forall>k'\<ge>k. schedule k' 3 example 0 = Some ord)"
  using schedule_terminates [OF example_acyclic, of 3 0] example_acyclic by simp

section \<open>The state that \<open>schedule\<close> leaves\<close>

lemma run_inv:
  assumes ac: "acyclic_graph g" and un: "\<forall>n. \<not> visited (g n)"
    and run: "run k root g a = Some st"
  shows "inv g st" and "vis st = reachable g root"
proof -
  let ?s0 = "\<lparr>nodes = g, allocated = a, bufferStack = [], order = []\<rparr>"
  from run obtain r where v: "visit k root ?s0 = Some (r, st)"
    by (auto simp: run_def)
  have v0: "vis ?s0 = {}" using un by (simp add: vis_def)
  have i0: "inv g ?s0" unfolding inv_def v0 by simp
  have "visit_ok g k" using acyclic_graph_acyclic [OF ac] by (rule visit_ok_all)
  with v i0 have i: "inv g st" and root: "root \<in> vis st"
    and fr: "\<And>x. (root, x) \<notin> (edges g)\<^sup>* \<Longrightarrow> nodes st x = nodes ?s0 x"
    unfolding visit_ok_def by blast+
  show "inv g st" by fact
  have "x \<in> vis st" if "(root, x) \<in> (edges g)\<^sup>*" for x
    using that
  proof (induction rule: rtrancl_induct)
    case base
    show ?case by (rule root)
  next
    case (step y z)
    then show ?case using inv_closed [OF i] by blast
  qed
  moreover have "(root, x) \<in> (edges g)\<^sup>*" if "x \<in> vis st" for x
  proof (rule ccontr)
    assume "(root, x) \<notin> (edges g)\<^sup>*"
    then have "nodes st x = g x" using fr by simp
    with that un show False by (simp add: vis_def)
  qed
  ultimately show "vis st = reachable g root" by (auto simp: reachable_def)
qed

lemma inv_step:
  assumes "inv g st" and "s \<in> set (order st)"
  shows "s = step_of (Scheduled.node s) (nodes st (Scheduled.node s))"
proof -
  let ?x = "Scheduled.node s"
  have "?x \<in> vis st" using assms inv_nodes [OF assms(1)] by blast
  then have "settled g st ?x" using assms(1) by (simp add: inv_settled)
  then have "step_of ?x (nodes st ?x) \<in> set (order st)" by (simp add: settled_def Let_def)
  moreover have "Scheduled.node (step_of ?x (nodes st ?x)) = ?x" by (simp add: step_of_def)
  ultimately show ?thesis
    using inv_distinct [OF assms(1)] assms(2) by (metis distinct_map inj_onD)
qed

lemma inv_trans_topo:
  assumes "inv g st" and "(x, y) \<in> (edges g)\<^sup>+"
  shows "i < length (order st) \<Longrightarrow> Scheduled.node (order st ! i) = x \<Longrightarrow>
    \<exists>j<i. Scheduled.node (order st ! j) = y"
  using assms(2)
proof (induction arbitrary: i rule: trancl_induct)
  case (base y)
  then show ?case using inv_topo [OF assms(1), of i y] by simp
next
  case (step y z)
  from step.IH [OF step.prems] obtain j where j: "j < i" "Scheduled.node (order st ! j) = y"
    by blast
  with step.prems have "j < length (order st)" by simp
  from inv_topo [OF assms(1) this, of z] j step.hyps(2)
  obtain j' where "j' < j" "Scheduled.node (order st ! j') = z" by auto
  with j show ?case by (intro exI [of _ j']) simp
qed

section \<open>The order of the schedule\<close>

text \<open>
  C1. On an acyclic graph whose nodes are all unvisited, \<open>schedule\<close> returns a schedule
  with exactly one step for each node reachable from the root along input connections
  and no other step, and every node that a step's node depends on, directly or through
  other nodes, has its step at an earlier position.
\<close>

theorem schedule_topological:
  assumes "acyclic_graph g" and "\<forall>n. \<not> visited (g n)"
  shows "\<exists>k ord. (\<forall>k'\<ge>k. schedule k' root g a = Some ord) \<and>
     distinct (map Scheduled.node ord) \<and>
     set (map Scheduled.node ord) = reachable g root \<and>
     (\<forall>i<length ord. \<forall>m. (Scheduled.node (ord ! i), m) \<in> (edges g)\<^sup>+ \<longrightarrow>
        (\<exists>j<i. Scheduled.node (ord ! j) = m))"
proof -
  obtain k st where run: "\<forall>k'\<ge>k. run k' root g a = Some st"
    using run_total [OF assms(1)] by blast
  then have "run k root g a = Some st" by simp
  note i = run_inv [OF assms this]
  have "\<forall>k'\<ge>k. schedule k' root g a = Some (order st)"
    using run by (simp add: schedule_def)
  moreover have "distinct (map Scheduled.node (order st))" using i(1) by (rule inv_distinct)
  moreover have "set (map Scheduled.node (order st)) = reachable g root"
    using inv_nodes [OF i(1)] i(2) by simp
  moreover have "\<forall>i<length (order st). \<forall>m. (Scheduled.node (order st ! i), m) \<in> (edges g)\<^sup>+ \<longrightarrow>
        (\<exists>j<i. Scheduled.node (order st ! j) = m)"
    using inv_trans_topo [OF i(1)] by blast
  ultimately show ?thesis by blast
qed

lemma example_unvisited: "\<forall>n. \<not> visited (example n)"
  by (simp add: example_def graph_defs)

theorem schedule_topological_witness:
  "acyclic_graph example \<and> (\<forall>n. \<not> visited (example n)) \<and>
   (\<exists>k ord. (\<forall>k'\<ge>k. schedule k' 3 example 0 = Some ord) \<and>
     distinct (map Scheduled.node ord) \<and>
     set (map Scheduled.node ord) = reachable example 3 \<and>
     (\<forall>i<length ord. \<forall>m. (Scheduled.node (ord ! i), m) \<in> (edges example)\<^sup>+ \<longrightarrow>
        (\<exists>j<i. Scheduled.node (ord ! j) = m)))"
  using schedule_topological [OF example_acyclic example_unvisited, of 3 0]
    example_acyclic example_unvisited by simp

section \<open>Resolved bindings\<close>

lemma corresponding_None:
  assumes "nm \<notin> BufferAssignment.port ` set outs"
  shows "corresponding nm outs = None"
proof -
  have "find (\<lambda>assn. BufferAssignment.port assn = nm) outs = None"
    using assms by (auto simp: find_None_iff)
  then show ?thesis by (simp add: corresponding_def)
qed

lemma corresponding_Some:
  assumes "nm \<in> BufferAssignment.port ` set outs"
  shows "\<exists>b\<in>set outs. corresponding nm outs = BufferAssignment.buffer b"
proof (cases "find (\<lambda>assn. BufferAssignment.port assn = nm) outs")
  case None
  with assms show ?thesis by (auto simp: find_None_iff)
next
  case (Some b)
  then have "b \<in> set outs" by (auto simp: find_Some_iff)
  with Some show ?thesis by (auto simp: corresponding_def)
qed

lemma result_ports:
  "map BufferAssignment.port (visit_result.outputs (result nd)) =
     map (\<lambda>s. case snd s of Some c \<Rightarrow> connection.port c | None \<Rightarrow> [])
       (map port_shape (node.outputs nd))"
  by (simp add: result_def port_shape_def comp_def)

lemma result_ports_shape:
  assumes "shape g = shape g'"
  shows "BufferAssignment.port ` set (visit_result.outputs (result (g n))) =
     BufferAssignment.port ` set (visit_result.outputs (result (g' n)))"
proof -
  have "map BufferAssignment.port (visit_result.outputs (result (g n))) =
      map BufferAssignment.port (visit_result.outputs (result (g' n)))"
    unfolding result_ports shape_outputs [OF assms] ..
  then show ?thesis by (metis set_map)
qed

lemma result_buffers:
  "BufferAssignment.buffer ` set (visit_result.outputs (result nd)) =
     port.buffer ` set (node.outputs nd)"
  by (force simp: result_def)

lemma shape_input_nth:
  assumes "shape g = shape g'" and "i < length (node.inputs (g n))"
  shows "port.name (node.inputs (g n) ! i) = port.name (node.inputs (g' n) ! i)"
    and "port.connection (node.inputs (g n) ! i) = port.connection (node.inputs (g' n) ! i)"
proof -
  have "map port_shape (node.inputs (g n)) ! i = map port_shape (node.inputs (g' n)) ! i"
    using shape_inputs [OF assms(1)] by simp
  moreover have "i < length (node.inputs (g' n))"
    using assms shape_length_inputs [OF assms(1), of n] by simp
  ultimately have "port_shape (node.inputs (g n) ! i) = port_shape (node.inputs (g' n) ! i)"
    using assms(2) by simp
  then show "port.name (node.inputs (g n) ! i) = port.name (node.inputs (g' n) ! i)"
    and "port.connection (node.inputs (g n) ! i) = port.connection (node.inputs (g' n) ! i)"
    by (simp_all add: port_shape_def)
qed

text \<open>What the invariant says about the buffer of an input of a visited node.\<close>

lemma inv_input_buffer:
  assumes i: "inv g st" and x: "x \<in> vis st" and l: "i < length (node.inputs (g x))"
  shows "case port.connection (node.inputs (g x) ! i) of
      None \<Rightarrow> port.buffer (node.inputs (nodes st x) ! i) \<noteq> None
    | Some c \<Rightarrow> connection.node c \<in> vis st \<and>
        port.buffer (node.inputs (nodes st x) ! i) =
          corresponding (port.name (node.inputs (g x) ! i))
            (visit_result.outputs (result (nodes st (connection.node c))))"
proof -
  note sh = inv_shape [OF i]
  have l': "i < length (node.inputs (nodes st x))"
    using l shape_length_inputs [OF sh, of x] by simp
  have "bound st x i"
    using inv_settled [OF i x] l' by (simp add: settled_def Let_def)
  then show ?thesis
    unfolding bound_def Let_def shape_input_nth [OF sh l'] by (simp split: option.splits)
qed

lemma inv_output_buffer:
  assumes "inv g st" and "x \<in> vis st" and "p \<in> set (node.outputs (nodes st x))"
  shows "port.buffer p \<noteq> None"
  using inv_settled [OF assms(1,2)] assms(3) by (simp add: settled_def Let_def)

lemma inv_inputs_resolved:
  assumes i: "inv g st" and ok: "lookup_ok g" and x: "x \<in> vis st"
    and p: "p \<in> set (node.inputs (nodes st x))"
  shows "port.buffer p \<noteq> None"
proof -
  note sh = inv_shape [OF i]
  from p obtain j where j: "j < length (node.inputs (nodes st x))"
    and pj: "p = node.inputs (nodes st x) ! j" by (auto simp: in_set_conv_nth)
  have l: "j < length (node.inputs (g x))"
    using j shape_length_inputs [OF sh, of x] by simp
  note b = inv_input_buffer [OF i x l]
  show ?thesis
  proof (cases "port.connection (node.inputs (g x) ! j)")
    case None
    with b show ?thesis by (simp add: pj)
  next
    case (Some c)
    let ?m = "connection.node c"
    from b Some have m: "?m \<in> vis st"
      and pb: "port.buffer p = corresponding (port.name (node.inputs (g x) ! j))
            (visit_result.outputs (result (nodes st ?m)))" by (simp_all add: pj)
    have "node.inputs (g x) ! j \<in> set (node.inputs (g x))" using l by simp
    with ok Some have "port.name (node.inputs (g x) ! j) \<in> BufferAssignment.port `
          set (visit_result.outputs (result (g ?m)))"
      unfolding lookup_ok_def by blast
    then have "port.name (node.inputs (g x) ! j) \<in> BufferAssignment.port `
          set (visit_result.outputs (result (nodes st ?m)))"
      using result_ports_shape [OF sh, of ?m] by simp
    from corresponding_Some [OF this] obtain b where
      "b \<in> set (visit_result.outputs (result (nodes st ?m)))"
      "port.buffer p = BufferAssignment.buffer b" using pb by auto
    then have "port.buffer p \<in> port.buffer ` set (node.outputs (nodes st ?m))"
      using result_buffers [of "nodes st ?m"] by (metis imageI)
    then show ?thesis using inv_output_buffer [OF i m] by auto
  qed
qed

text \<open>
  What holds of the buffers: on an acyclic graph whose nodes are all unvisited and in
  which every lookup finds a binding, \<open>schedule\<close> returns a schedule that has a step for
  every node reachable from the root and for no other node, and in every step each
  input binding and each output binding carries a buffer.
\<close>

theorem schedule_bindings_resolved:
  assumes "acyclic_graph g" and "\<forall>n. \<not> visited (g n)" and "lookup_ok g"
  shows "\<exists>k ord. (\<forall>k'\<ge>k. schedule k' root g a = Some ord) \<and>
     (\<forall>n\<in>reachable g root. \<exists>s\<in>set ord. Scheduled.node s = n) \<and>
     (\<forall>s\<in>set ord. Scheduled.node s \<in> reachable g root \<and>
        (\<forall>b\<in>set (Scheduled.inputs s). BufferAssignment.buffer b \<noteq> None) \<and>
        (\<forall>b\<in>set (Scheduled.outputs s). BufferAssignment.buffer b \<noteq> None))"
proof -
  obtain k st where run: "\<forall>k'\<ge>k. run k' root g a = Some st"
    using run_total [OF assms(1)] by blast
  then have "run k root g a = Some st" by simp
  note i = run_inv [OF assms(1,2) this]
  have n: "Scheduled.node ` set (order st) = reachable g root"
    using inv_nodes [OF i(1)] i(2) by simp
  have "\<forall>k'\<ge>k. schedule k' root g a = Some (order st)"
    using run by (simp add: schedule_def)
  moreover have "\<forall>n\<in>reachable g root. \<exists>s\<in>set (order st). Scheduled.node s = n"
    using n by force
  moreover have "Scheduled.node s \<in> reachable g root \<and>
        (\<forall>b\<in>set (Scheduled.inputs s). BufferAssignment.buffer b \<noteq> None) \<and>
        (\<forall>b\<in>set (Scheduled.outputs s). BufferAssignment.buffer b \<noteq> None)"
    if s: "s \<in> set (order st)" for s
  proof -
    let ?x = "Scheduled.node s"
    have x: "?x \<in> vis st" using s inv_nodes [OF i(1)] by blast
    have e: "s = step_of ?x (nodes st ?x)" using i(1) s by (rule inv_step)
    have "BufferAssignment.buffer b \<noteq> None" if "b \<in> set (Scheduled.inputs s)" for b
    proof -
      from that e obtain p where "p \<in> set (node.inputs (nodes st ?x))" "b = input_binding p"
        by (metis (no_types, lifting) Scheduled.select_convs(2) step_of_def image_iff set_map)
      then show ?thesis
        using inv_inputs_resolved [OF i(1) assms(3) x] by (simp add: input_binding_def)
    qed
    moreover have "BufferAssignment.buffer b \<noteq> None" if "b \<in> set (Scheduled.outputs s)" for b
    proof -
      from that e obtain p where "p \<in> set (node.outputs (nodes st ?x))" "b = output_binding p"
        by (metis (no_types, lifting) Scheduled.select_convs(3) step_of_def image_iff set_map)
      then show ?thesis
        using inv_output_buffer [OF i(1) x] by (simp add: output_binding_def)
    qed
    ultimately show ?thesis using x i(2) by blast
  qed
  ultimately show ?thesis by blast
qed

lemma example_lookup_ok: "lookup_ok example"
  by (simp add: lookup_ok_def example_def graph_defs result_def)

theorem schedule_bindings_resolved_witness:
  "acyclic_graph example \<and> (\<forall>n. \<not> visited (example n)) \<and> lookup_ok example \<and>
   (\<exists>k ord. (\<forall>k'\<ge>k. schedule k' 3 example 0 = Some ord) \<and>
     (\<forall>n\<in>reachable example 3. \<exists>s\<in>set ord. Scheduled.node s = n) \<and>
     (\<forall>s\<in>set ord. Scheduled.node s \<in> reachable example 3 \<and>
        (\<forall>b\<in>set (Scheduled.inputs s). BufferAssignment.buffer b \<noteq> None) \<and>
        (\<forall>b\<in>set (Scheduled.outputs s). BufferAssignment.buffer b \<noteq> None)))"
  using schedule_bindings_resolved [OF example_acyclic example_unvisited example_lookup_ok, of 3 0]
    example_acyclic example_unvisited example_lookup_ok by simp

lemma dangling_acyclic: "acyclic_graph dangling"
  by (rule acyclic_graph_rank [where rank = id])
     (auto simp: dangling_def graph_defs split: if_splits)

lemma dangling_unvisited: "\<forall>n. \<not> visited (dangling n)"
  by (simp add: dangling_def graph_defs)

lemma reachable_refl: "root \<in> reachable g root"
  by (simp add: reachable_def)

lemma fan_out_acyclic: "acyclic_graph fan_out"
  by (rule acyclic_graph_rank [where rank = id])
     (auto simp: fan_out_def graph_defs split: if_splits)

lemma fan_out_reachable: "2 \<in> reachable fan_out 3"
proof -
  have "(3, 2) \<in> edges fan_out"
    by (simp add: edges_def fan_out_def graph_defs)
  then show ?thesis by (auto simp: reachable_def)
qed

text \<open>
  C4 fails on the fan-out graph. The graph is acyclic, none of its nodes is visited,
  node 2 is reachable from the root 3, and its only input \<open>b\<close> is connected to the
  output \<open>out\<close> that node 0 has; yet the step of node 2 binds this input to no buffer.
  Each step is shown as its node, the buffers of its input bindings and the buffers of
  its output bindings.
\<close>

theorem fan_out_unresolved:
  "acyclic_graph fan_out \<and> (\<forall>n. \<not> visited (fan_out n)) \<and> 2 \<in> reachable fan_out 3 \<and>
   map (\<lambda>p. (port.name p, port.connection p)) (node.inputs (fan_out 2)) =
     [(''b'', conn 0 ''out'')] \<and>
   map port.name (node.outputs (fan_out 0)) = [''out''] \<and>
   map_option
     (map (\<lambda>s. (Scheduled.node s, map BufferAssignment.buffer (Scheduled.inputs s),
                 map BufferAssignment.buffer (Scheduled.outputs s))))
     (schedule (Suc (Suc (Suc 0))) 3 fan_out 0) =
     Some [(0, [], [Some 1]), (1, [Some 1], [Some 0]), (2, [None], [Some 0]),
           (3, [Some 0, Some 0], [])]"
proof -
  have "map (\<lambda>p. (port.name p, port.connection p)) (node.inputs (fan_out 2)) =
     [(''b'', conn 0 ''out'')]"
    and "map port.name (node.outputs (fan_out 0)) = [''out'']"
    and "\<forall>n. \<not> visited (fan_out n)"
    by (simp_all add: fan_out_def graph_defs)
  moreover have "map_option
     (map (\<lambda>s. (Scheduled.node s, map BufferAssignment.buffer (Scheduled.inputs s),
                 map BufferAssignment.buffer (Scheduled.outputs s))))
     (schedule (Suc (Suc (Suc 0))) 3 fan_out 0) =
     Some [(0, [], [Some 1]), (1, [Some 1], [Some 0]), (2, [None], [Some 0]),
           (3, [Some 0, Some 0], [])]"
    by (simp add: fan_out_def graph_defs schedule_defs)
  ultimately show ?thesis using fan_out_acyclic fan_out_reachable by blast
qed

text \<open>
  C7, as the code has it. When input \<open>i\<close> of a reachable node \<open>n\<close> is connected to a
  node that does not report the name of that input, \<open>schedule\<close> does not fail: it
  returns a schedule with a step for every reachable node, and in the step of \<open>n\<close> the
  binding of input \<open>i\<close> has no buffer.
\<close>

theorem schedule_missing_lookup:
  assumes "acyclic_graph g" and "\<forall>n. \<not> visited (g n)"
    and n: "n \<in> reachable g root" and l: "i < length (node.inputs (g n))"
    and c: "port.connection (node.inputs (g n) ! i) = Some c"
    and miss: "port.name (node.inputs (g n) ! i) \<notin> BufferAssignment.port `
          set (visit_result.outputs (result (g (connection.node c))))"
  shows "\<exists>k ord. (\<forall>k'\<ge>k. schedule k' root g a = Some ord) \<and>
     Scheduled.node ` set ord = reachable g root \<and>
     (\<exists>s\<in>set ord. Scheduled.node s = n \<and> i < length (Scheduled.inputs s) \<and>
        BufferAssignment.port (Scheduled.inputs s ! i) = port.name (node.inputs (g n) ! i) \<and>
        BufferAssignment.buffer (Scheduled.inputs s ! i) = None)"
proof -
  obtain k st where run: "\<forall>k'\<ge>k. run k' root g a = Some st"
    using run_total [OF assms(1)] by blast
  then have "run k root g a = Some st" by simp
  note i = run_inv [OF assms(1,2) this]
  note sh = inv_shape [OF i(1)]
  have x: "n \<in> vis st" using n i(2) by simp
  have l': "i < length (node.inputs (nodes st n))"
    using l shape_length_inputs [OF sh, of n] by simp
  let ?p = "node.inputs (nodes st n) ! i"
  let ?s = "step_of n (nodes st n)"
  have "port.name (node.inputs (g n) ! i) \<notin> BufferAssignment.port `
          set (visit_result.outputs (result (nodes st (connection.node c))))"
    using miss result_ports_shape [OF sh, of "connection.node c"] by simp
  then have "port.buffer ?p = None"
    using inv_input_buffer [OF i(1) x l] c by (simp add: corresponding_None)
  moreover have "port.name ?p = port.name (node.inputs (g n) ! i)"
    using shape_input_nth(1) [OF sh l'] .
  ultimately have "BufferAssignment.buffer (Scheduled.inputs ?s ! i) = None"
    and "BufferAssignment.port (Scheduled.inputs ?s ! i) = port.name (node.inputs (g n) ! i)"
    using l' by (simp_all add: step_of_def input_binding_def)
  moreover have "?s \<in> set (order st)"
    using inv_settled [OF i(1) x] by (simp add: settled_def Let_def)
  moreover have "Scheduled.node ?s = n" "i < length (Scheduled.inputs ?s)"
    using l' by (simp_all add: step_of_def)
  moreover have "\<forall>k'\<ge>k. schedule k' root g a = Some (order st)"
    using run by (simp add: schedule_def)
  moreover have "Scheduled.node ` set (order st) = reachable g root"
    using inv_nodes [OF i(1)] i(2) by simp
  ultimately show ?thesis by blast
qed

theorem schedule_missing_lookup_witness:
  "acyclic_graph dangling \<and> (\<forall>n. \<not> visited (dangling n)) \<and> 1 \<in> reachable dangling 1 \<and>
   0 < length (node.inputs (dangling 1)) \<and>
   port.connection (node.inputs (dangling 1) ! 0) = conn 0 ''out'' \<and>
   port.name (node.inputs (dangling 1) ! 0) \<notin> BufferAssignment.port `
     set (visit_result.outputs (result (dangling 0))) \<and>
   (\<exists>k ord. (\<forall>k'\<ge>k. schedule k' 1 dangling 0 = Some ord) \<and>
     Scheduled.node ` set ord = reachable dangling 1 \<and>
     (\<exists>s\<in>set ord. Scheduled.node s = 1 \<and> 0 < length (Scheduled.inputs s) \<and>
        BufferAssignment.port (Scheduled.inputs s ! 0) = ''in'' \<and>
        BufferAssignment.buffer (Scheduled.inputs s ! 0) = None))"
proof -
  have 1: "0 < length (node.inputs (dangling 1))"
    and 2: "port.connection (node.inputs (dangling 1) ! 0) =
      Some \<lparr>connection.node = 0, port = ''out''\<rparr>"
    and 3: "port.name (node.inputs (dangling 1) ! 0) \<notin> BufferAssignment.port `
     set (visit_result.outputs (result (dangling
       (connection.node \<lparr>connection.node = 0, port = ''out''\<rparr>))))"
    and 4: "port.name (node.inputs (dangling 1) ! 0) = ''in''"
    by (simp_all add: dangling_def graph_defs result_def)
  show ?thesis
    using schedule_missing_lookup [OF dangling_acyclic dangling_unvisited reachable_refl 1 2 3,
        of 0]
      dangling_acyclic dangling_unvisited reachable_refl [of 1 dangling] 1 2 3 4
    by (simp add: conn_def)
qed

section \<open>Latencies\<close>

lemma foldl_math_max: "foldl math_max (Num a) (map Num ls) = Num (foldl max a ls)"
  by (induction ls arbitrary: a) simp_all

lemma foldl_max_Max: "foldl max (a::int) ls = Max (set (a # ls))"
proof -
  have "(\<lambda>x s. max s x) = (max :: int \<Rightarrow> int \<Rightarrow> int)" by (intro ext) (rule max.commute)
  then have "foldl max a ls = fold max ls a" by (simp add: foldl_conv_fold)
  also have "\<dots> = Max (set (a # ls))" by (rule Max.set_eq_fold [symmetric])
  finally show ?thesis .
qed

lemma foldl_max_ge: "(a::int) \<le> foldl max a ls" "l \<in> set ls \<Longrightarrow> l \<le> foldl max a ls"
  unfolding foldl_max_Max by (simp_all)

lemma foldl_max_default:
  assumes "\<forall>l\<in>set ls. (0::int) \<le> l"
  shows "foldl max 0 ls = (if ls = [] then 0 else Max (set ls))"
proof (cases "ls = []")
  case True
  then show ?thesis by simp
next
  case False
  then obtain l where "l \<in> set ls" by (cases ls) auto
  then have "l \<le> Max (set ls)" by simp
  moreover from \<open>l \<in> set ls\<close> assms have "0 \<le> l" by blast
  ultimately have "0 \<le> Max (set ls)" by linarith
  with False show ?thesis unfolding foldl_max_Max by (simp add: max_def)
qed

lemma settled_latencies:
  assumes s: "settled g st x"
    and up: "\<And>i c. i < length (node.inputs (nodes st x)) \<Longrightarrow>
           port.connection (node.inputs (nodes st x) ! i) = Some c \<Longrightarrow>
           \<exists>l. node.latency (nodes st (connection.node c)) = Some (Num l)"
  shows "\<exists>ls. map port.latency (node.inputs (nodes st x)) = map (\<lambda>l. Some (Num l)) ls \<and>
     (\<forall>i<length ls. case port.connection (node.inputs (nodes st x) ! i) of
          None \<Rightarrow> ls ! i = 0
        | Some c \<Rightarrow> node.latency (nodes st (connection.node c)) = Some (Num (ls ! i))) \<and>
     maxInputLatency (nodes st x) = Num (foldl max 0 ls) \<and>
     node.latency (nodes st x) = Some (Num (foldl max 0 ls + delay (nodes st x)))"
proof -
  let ?ps = "node.inputs (nodes st x)"
  let ?ls = "map (\<lambda>p. int_of (port.latency p)) ?ps"
  have b: "bound st x i" if "i < length ?ps" for i
    using s that by (simp add: settled_def Let_def)
  have p: "port.latency (?ps ! i) = Some (Num (?ls ! i)) \<and>
      (case port.connection (?ps ! i) of None \<Rightarrow> ?ls ! i = 0
       | Some c \<Rightarrow> node.latency (nodes st (connection.node c)) = Some (Num (?ls ! i)))"
    if i: "i < length ?ps" for i
  proof (cases "port.connection (?ps ! i)")
    case None
    with b [OF i] i show ?thesis by (simp add: bound_def Let_def int_of_def)
  next
    case (Some c)
    from up [OF i Some] obtain l where "node.latency (nodes st (connection.node c)) = Some (Num l)"
      by blast
    with b [OF i] i Some show ?thesis by (simp add: bound_def Let_def int_of_def)
  qed
  have 1: "map port.latency ?ps = map (\<lambda>l. Some (Num l)) ?ls"
    using p by (simp add: list_eq_iff_nth_eq)
  have "to_number (port.latency (?ps ! i)) = Num (int_of (port.latency (?ps ! i)))"
    if "i < length ?ps" for i
  proof -
    from p [OF that] obtain l where "port.latency (?ps ! i) = Some (Num l)" by blast
    then show ?thesis by (simp add: to_number_def int_of_def)
  qed
  then have mp: "map (\<lambda>p. to_number (port.latency p)) ?ps = map Num ?ls"
    by (simp add: list_eq_iff_nth_eq)
  have 3: "maxInputLatency (nodes st x) = Num (foldl max 0 ?ls)"
    unfolding maxInputLatency_def mp by (rule foldl_math_max)
  have "node.latency (nodes st x) =
      Some (num_add (maxInputLatency (nodes st x)) (Num (delay (nodes st x))))"
    using s by (simp add: settled_def Let_def)
  then have 4: "node.latency (nodes st x) = Some (Num (foldl max 0 ?ls + delay (nodes st x)))"
    by (simp add: 3)
  have 2: "\<forall>i<length ?ls. case port.connection (?ps ! i) of None \<Rightarrow> ?ls ! i = 0
       | Some c \<Rightarrow> node.latency (nodes st (connection.node c)) = Some (Num (?ls ! i))"
    using p by simp
  show ?thesis using 1 2 3 4 by blast
qed

lemma inv_latency_num:
  assumes ac: "acyclic_graph g" and i: "inv g st"
  shows "x \<in> vis st \<Longrightarrow> \<exists>l. node.latency (nodes st x) = Some (Num l)"
  using ac [unfolded acyclic_graph_def]
proof (induction x rule: wf_induct_rule)
  case (less x)
  have e: "edges (nodes st) = edges g" using inv_shape [OF i] by (rule edges_shape)
  have "\<exists>l. node.latency (nodes st (connection.node c)) = Some (Num l)"
    if j: "j < length (node.inputs (nodes st x))"
      and c: "port.connection (node.inputs (nodes st x) ! j) = Some c" for j c
  proof -
    have "(x, connection.node c) \<in> edges g"
      using edge_nth [of j "nodes st" x c, OF j c] e by simp
    moreover from this have "connection.node c \<in> vis st"
      using inv_closed [OF i less.prems] by blast
    ultimately show ?thesis using less.IH by simp
  qed
  with inv_settled [OF i less.prems] show ?case
    using settled_latencies [of g st x] by blast
qed

lemma inv_latencies:
  assumes ac: "acyclic_graph g" and i: "inv g st" and x: "x \<in> vis st"
  shows "\<exists>ls. map port.latency (node.inputs (nodes st x)) = map (\<lambda>l. Some (Num l)) ls \<and>
     (\<forall>i<length ls. case port.connection (node.inputs (nodes st x) ! i) of
          None \<Rightarrow> ls ! i = 0
        | Some c \<Rightarrow> node.latency (nodes st (connection.node c)) = Some (Num (ls ! i))) \<and>
     maxInputLatency (nodes st x) = Num (foldl max 0 ls) \<and>
     node.latency (nodes st x) = Some (Num (foldl max 0 ls + delay (nodes st x)))"
  using inv_settled [OF i x]
proof (rule settled_latencies)
  fix j c
  assume j: "j < length (node.inputs (nodes st x))"
    and c: "port.connection (node.inputs (nodes st x) ! j) = Some c"
  have "bound st x j" using inv_settled [OF i x] j by (simp add: settled_def Let_def)
  with c have "connection.node c \<in> vis st" by (simp add: bound_def Let_def)
  then show "\<exists>l. node.latency (nodes st (connection.node c)) = Some (Num l)"
    using inv_latency_num [OF ac i] by simp
qed

lemma inv_latency_nonneg:
  assumes ac: "acyclic_graph g" and i: "inv g st" and x: "x \<in> vis st"
    and d: "\<forall>n. 0 \<le> delay (g n)"
    and l: "node.latency (nodes st x) = Some (Num l)"
  shows "0 \<le> l"
proof -
  from inv_latencies [OF ac i x] obtain ls where
    "node.latency (nodes st x) = Some (Num (foldl max 0 ls + delay (nodes st x)))" by blast
  moreover have "delay (nodes st x) = delay (g x)" using inv_shape [OF i] by (rule shape_delay)
  ultimately show ?thesis using l d foldl_max_ge(1) [of 0 ls]
    by (metis add_nonneg_nonneg number.inject option.inject)
qed

text \<open>
  C5. On an acyclic graph whose nodes are all unvisited and whose delays are not
  negative, \<open>schedule\<close> returns, every node reachable from the root has a step in the
  schedule, and it ends with the latency \<open>max(input latencies) + delay\<close>, the maximum of
  no inputs being 0: \<open>ls\<close> are the latencies recorded on its input ports, one for each
  input port, 0 for an unconnected input and the latency of the upstream node for a
  connected one.
  (The latency of a visited node never changes again, so this is also the latency the
  upstream node had when the input was bound.)
\<close>

theorem latency_recurrence:
  assumes "acyclic_graph g" and "\<forall>n. \<not> visited (g n)" and "\<forall>n. 0 \<le> delay (g n)"
  shows "\<exists>k st. (\<forall>k'\<ge>k. run k' root g a = Some st) \<and>
     (\<forall>n\<in>reachable g root.
        (\<exists>s\<in>set (order st). Scheduled.node s = n) \<and>
        (\<exists>ls. length ls = length (node.inputs (g n)) \<and>
           map port.latency (node.inputs (nodes st n)) = map (\<lambda>l. Some (Num l)) ls \<and>
           (\<forall>i<length ls.
              case port.connection (node.inputs (g n) ! i) of
                None \<Rightarrow> ls ! i = 0
              | Some c \<Rightarrow> node.latency (nodes st (connection.node c)) = Some (Num (ls ! i))) \<and>
           node.latency (nodes st n) =
             Some (Num ((if ls = [] then 0 else Max (set ls)) + delay (g n)))))"
proof -
  obtain k st where run: "\<forall>k'\<ge>k. run k' root g a = Some st"
    using run_total [OF assms(1)] by blast
  then have "run k root g a = Some st" by simp
  note i = run_inv [OF assms(1,2) this]
  note sh = inv_shape [OF i(1)]
  have lat: "\<exists>ls. length ls = length (node.inputs (g x)) \<and>
        map port.latency (node.inputs (nodes st x)) = map (\<lambda>l. Some (Num l)) ls \<and>
        (\<forall>i<length ls. case port.connection (node.inputs (g x) ! i) of
             None \<Rightarrow> ls ! i = 0
           | Some c \<Rightarrow> node.latency (nodes st (connection.node c)) = Some (Num (ls ! i))) \<and>
        node.latency (nodes st x) =
          Some (Num ((if ls = [] then 0 else Max (set ls)) + delay (g x)))"
    if x: "x \<in> vis st" for x
  proof -
    from inv_latencies [OF assms(1) i(1) x] obtain ls where
      1: "map port.latency (node.inputs (nodes st x)) = map (\<lambda>l. Some (Num l)) ls"
      and 2: "\<forall>i<length ls. case port.connection (node.inputs (nodes st x) ! i) of
          None \<Rightarrow> ls ! i = 0
        | Some c \<Rightarrow> node.latency (nodes st (connection.node c)) = Some (Num (ls ! i))"
      and 4: "node.latency (nodes st x) = Some (Num (foldl max 0 ls + delay (nodes st x)))"
      by blast
    have len: "length ls = length (node.inputs (nodes st x))"
      using 1 by (metis length_map)
    have leng: "length ls = length (node.inputs (g x))"
      using len shape_length_inputs [OF sh, of x] by simp
    have 2: "case port.connection (node.inputs (g x) ! j) of
          None \<Rightarrow> ls ! j = 0
        | Some c \<Rightarrow> node.latency (nodes st (connection.node c)) = Some (Num (ls ! j))"
      if j: "j < length ls" for j
    proof -
      from 2 j have "case port.connection (node.inputs (nodes st x) ! j) of
          None \<Rightarrow> ls ! j = 0
        | Some c \<Rightarrow> node.latency (nodes st (connection.node c)) = Some (Num (ls ! j))"
        by blast
      moreover have "port.connection (node.inputs (nodes st x) ! j) =
          port.connection (node.inputs (g x) ! j)"
        using j len by (intro shape_input_nth(2) [OF sh]) simp
      ultimately show ?thesis by simp
    qed
    have "0 \<le> ls ! j" if j: "j < length ls" for j
    proof (cases "port.connection (node.inputs (g x) ! j)")
      case None
      with 2 [OF j] show ?thesis by simp
    next
      case (Some c)
      with 2 [OF j] have l: "node.latency (nodes st (connection.node c)) = Some (Num (ls ! j))"
        by simp
      have "(x, connection.node c) \<in> edges g"
        using edge_nth [of j g x c] j leng Some by simp
      then have "connection.node c \<in> vis st" using inv_closed [OF i(1) x] by blast
      then show ?thesis using inv_latency_nonneg [OF assms(1) i(1) _ assms(3) l] by simp
    qed
    then have "\<forall>l\<in>set ls. 0 \<le> l" by (auto simp: in_set_conv_nth)
    then have "foldl max 0 ls = (if ls = [] then 0 else Max (set ls))"
      by (rule foldl_max_default)
    moreover have "delay (nodes st x) = delay (g x)" using sh by (rule shape_delay)
    ultimately have "node.latency (nodes st x) =
          Some (Num ((if ls = [] then 0 else Max (set ls)) + delay (g x)))"
      using 4 by simp
    with leng 1 2 show ?thesis by (intro exI [of _ ls]) blast
  qed
  have "(\<exists>s\<in>set (order st). Scheduled.node s = n) \<and>
        (\<exists>ls. length ls = length (node.inputs (g n)) \<and>
           map port.latency (node.inputs (nodes st n)) = map (\<lambda>l. Some (Num l)) ls \<and>
           (\<forall>i<length ls.
              case port.connection (node.inputs (g n) ! i) of
                None \<Rightarrow> ls ! i = 0
              | Some c \<Rightarrow> node.latency (nodes st (connection.node c)) = Some (Num (ls ! i))) \<and>
           node.latency (nodes st n) =
             Some (Num ((if ls = [] then 0 else Max (set ls)) + delay (g n))))"
    if n: "n \<in> reachable g root" for n
  proof -
    from n have x: "n \<in> vis st" using i(2) by simp
    then have "n \<in> Scheduled.node ` set (order st)" using inv_nodes [OF i(1)] by simp
    then have "\<exists>s\<in>set (order st). Scheduled.node s = n" by force
    with lat [OF x] show ?thesis by blast
  qed
  with run show ?thesis by blast
qed

lemma example_delays: "\<forall>n. 0 \<le> delay (example n)"
  by (simp add: example_def graph_defs)

theorem latency_recurrence_witness:
  "acyclic_graph example \<and> (\<forall>n. \<not> visited (example n)) \<and> (\<forall>n. 0 \<le> delay (example n)) \<and>
   (\<exists>k st. (\<forall>k'\<ge>k. run k' 3 example 0 = Some st) \<and>
     (\<forall>n\<in>reachable example 3.
        (\<exists>s\<in>set (order st). Scheduled.node s = n) \<and>
        (\<exists>ls. length ls = length (node.inputs (example n)) \<and>
           map port.latency (node.inputs (nodes st n)) = map (\<lambda>l. Some (Num l)) ls \<and>
           (\<forall>i<length ls.
              case port.connection (node.inputs (example n) ! i) of
                None \<Rightarrow> ls ! i = 0
              | Some c \<Rightarrow> node.latency (nodes st (connection.node c)) = Some (Num (ls ! i))) \<and>
           node.latency (nodes st n) =
             Some (Num ((if ls = [] then 0 else Max (set ls)) + delay (example n))))))"
  using latency_recurrence [OF example_acyclic example_unvisited example_delays, of 3 0]
    example_acyclic example_unvisited example_delays by simp

section \<open>Compensations\<close>











end
